theory Spec2Isabelle
  imports Main "HOL-Library.Sublist" "HOL-Library.Word"
begin

section \<open>Python strings\<close>

text \<open>
  The program is \<^verbatim>\<open>scripts/update_snowtams.py\<close>. A Python \<^verbatim>\<open>str\<close> is a sequence of
  Unicode code points, so a string is a list of natural numbers here, and a string
  literal of the source is written \<open>lit ''...''\<close>. The substring test
  \<^verbatim>\<open>k in s\<close> is \<^const>\<open>sublist\<close>, \<^verbatim>\<open>s.startswith(k)\<close> is \<^const>\<open>prefix\<close> and
  \<^verbatim>\<open>s.endswith(k)\<close> is \<^const>\<open>suffix\<close>.
\<close>

type_synonym pystr = "nat list"

definition lit :: "string \<Rightarrow> pystr" where
  "lit s = map of_char s"

definition NL :: pystr where
  "NL = [10]"

text \<open>
  \<^verbatim>\<open>str.isspace\<close> on one code point; the regular-expression class \<^verbatim>\<open>\s\<close> of a
  \<^verbatim>\<open>str\<close> pattern is the same set.
\<close>

definition isspace :: "nat \<Rightarrow> bool" where
  "isspace c = (c \<in> {9, 10, 11, 12, 13, 28, 29, 30, 31, 32, 133, 160, 5760,
                      8232, 8233, 8239, 8287, 12288} \<or> (8192 \<le> c \<and> c \<le> 8202))"

text \<open>The class \<^verbatim>\<open>[0-9]\<close>.\<close>

definition isdigit09 :: "nat \<Rightarrow> bool" where
  "isdigit09 c = (48 \<le> c \<and> c \<le> 57)"

definition lstrip :: "pystr \<Rightarrow> pystr" where
  "lstrip s = dropWhile isspace s"

definition rstrip :: "pystr \<Rightarrow> pystr" where
  "rstrip s = rev (dropWhile isspace (rev s))"

definition strip :: "pystr \<Rightarrow> pystr" where
  "strip s = rstrip (lstrip s)"

text \<open>
  \<^verbatim>\<open>str.upper\<close> maps every code point through the full upper-case mapping of the
  Unicode database, which may yield several code points (\<^verbatim>\<open>'\xdf'.upper() == 'SS'\<close>).
  The database is not part of the program: the mapping is the parameter \<open>uc\<close>.
  On ASCII it is \<open>uc_ascii\<close>, which also serves as a concrete instance.
\<close>

definition upper :: "(nat \<Rightarrow> pystr) \<Rightarrow> pystr \<Rightarrow> pystr" where
  "upper uc s = concat (map uc s)"

definition uc_ascii :: "nat \<Rightarrow> pystr" where
  "uc_ascii c = (if 97 \<le> c \<and> c \<le> 122 then [c - 32] else [c])"

definition ascii_cased :: "(nat \<Rightarrow> pystr) \<Rightarrow> bool" where
  "ascii_cased uc = (\<forall>c<128. uc c = uc_ascii c)"

text \<open>\<^verbatim>\<open>str(n)\<close> for a non-negative integer.\<close>

fun str_nat :: "nat \<Rightarrow> pystr" where
  "str_nat n = (if n < 10 then [48 + n] else str_nat (n div 10) @ [48 + n mod 10])"

declare str_nat.simps [simp del]

definition str_bool :: "bool \<Rightarrow> pystr" where
  "str_bool b = (if b then lit ''True'' else lit ''False'')"

section \<open>The severity classifier\<close>

text \<open>
  One attempt of the pattern fragment \<^verbatim>\<open>\s+([0-9])\<close> at the head of a string: the
  digit's value and the rest of the string. White space and digits are disjoint, so
  the greedy \<^verbatim>\<open>\s+\<close> has exactly one way to succeed.
\<close>

definition ws_digit :: "pystr \<Rightarrow> (nat \<times> pystr) option" where
  "ws_digit s =
     (if takeWhile isspace s = [] then None
      else (case dropWhile isspace s of
              [] \<Rightarrow> None
            | c # r \<Rightarrow> if isdigit09 c then Some (c - 48, r) else None))"

text \<open>
  One attempt of \<^verbatim>\<open>SURFACE CONDITION CODE\s+([0-9])\s+([0-9])\s+([0-9])\<close> at the head of
  a string: the three groups as integers, and the text after the match.
\<close>

definition scc_match :: "pystr \<Rightarrow> (nat list \<times> pystr) option" where
  "scc_match s =
     (if prefix (lit ''SURFACE CONDITION CODE'') s then
        (case ws_digit (drop (length (lit ''SURFACE CONDITION CODE'')) s) of
           None \<Rightarrow> None
         | Some (d1, r1) \<Rightarrow>
             (case ws_digit r1 of
                None \<Rightarrow> None
              | Some (d2, r2) \<Rightarrow>
                  (case ws_digit r2 of
                     None \<Rightarrow> None
                   | Some (d3, r3) \<Rightarrow> Some ([d1, d2, d3], r3))))
      else None)"

lemma ws_digit_shorter: "ws_digit s = Some (d, r) \<Longrightarrow> length r < length s"
proof -
  assume a: "ws_digit s = Some (d, r)"
  then obtain c where "dropWhile isspace s = c # r"
    by (auto simp: ws_digit_def split: if_splits list.splits)
  then have "length (dropWhile isspace s) = Suc (length r)" by simp
  moreover have "length (dropWhile isspace s) \<le> length s"
    by (rule length_dropWhile_le)
  ultimately show ?thesis by simp
qed

lemma scc_match_shorter: "scc_match s = Some (ds, r) \<Longrightarrow> length r < length s"
  by (fastforce simp: scc_match_def split: if_splits option.splits
      dest!: ws_digit_shorter)

text \<open>
  The loop over \<^verbatim>\<open>re.finditer\<close>: the matches are found from left to right and do not
  overlap, and each contributes its three digits to \<^verbatim>\<open>codes\<close>.
\<close>

function surface_codes :: "pystr \<Rightarrow> nat list" where
  "surface_codes [] = []"
| "surface_codes (c # cs) =
     (case scc_match (c # cs) of
        Some (ds, r) \<Rightarrow> ds @ surface_codes r
      | None \<Rightarrow> surface_codes cs)"
  by pat_completeness auto
termination
  by (relation "measure length") (auto dest: scc_match_shorter)

definition closure_words :: "pystr list" where
  "closure_words = [lit ''CLOSED'', lit ''CLSD'', lit ''RWY CLSD'', lit ''RUNWAY CLSD'']"

definition snowtam_severity :: "(nat \<Rightarrow> pystr) \<Rightarrow> pystr \<Rightarrow> pystr \<Rightarrow> pystr \<times> pystr" where
  "snowtam_severity uc raw decode =
     (if strip raw = [] then (lit ''ok'', lit ''No valid SNOWTAM'')
      else
        let upper_text = upper uc (raw @ NL @ decode) in
        if list_ex (\<lambda>k. sublist k upper_text) closure_words
        then (lit ''red'', lit ''Runway closed indicator found'')
        else if sublist (lit ''BRAKING ACTION'') upper_text \<and> sublist (lit ''POOR'') upper_text
        then (lit ''red'', lit ''Braking action POOR'')
        else
          let codes = surface_codes (upper uc decode);
              has_poor = sublist (lit '' POOR'') upper_text
          in if codes \<noteq> [] then
               (let min_code = min_list codes;
                   sev = (if min_code \<le> 2 then lit ''red''
                          else if 3 \<le> min_code \<and> min_code \<le> 4 then lit ''orange''
                          else lit ''yellow'');
                   sev = (if has_poor \<and> sev = lit ''yellow'' then lit ''orange'' else sev)
               in (sev, lit ''minRWYCC='' @ str_nat min_code @ lit ''; poorAreas='' @ str_bool has_poor))
             else if has_poor
             then (lit ''orange'', lit ''Could not parse RWYCC; POOR movement area noted'')
             else (lit ''yellow'', lit ''Could not parse RWYCC; SNOWTAM present''))"

text \<open>
  The pattern as the specification words it, read off the text rather than off the
  scanner: an occurrence is the phrase \<^verbatim>\<open>SURFACE CONDITION CODE\<close> followed three times
  by a non-empty run of white space and one digit \<^verbatim>\<open>0\<close>..\<^verbatim>\<open>9\<close>; \<open>code_in t d\<close> says
  that \<open>d\<close> is one of the three digits of some occurrence in \<open>t\<close>.
\<close>

definition blank1 :: "pystr \<Rightarrow> bool" where
  "blank1 w = (w \<noteq> [] \<and> list_all isspace w)"

definition scc_text :: "pystr \<Rightarrow> nat \<Rightarrow> pystr \<Rightarrow> nat \<Rightarrow> pystr \<Rightarrow> nat \<Rightarrow> pystr" where
  "scc_text w1 d1 w2 d2 w3 d3 =
     lit ''SURFACE CONDITION CODE'' @ w1 @ [48 + d1] @ w2 @ [48 + d2] @ w3 @ [48 + d3]"

definition code_in :: "pystr \<Rightarrow> nat \<Rightarrow> bool" where
  "code_in t d =
     (\<exists>pre w1 d1 w2 d2 w3 d3 rest.
        t = pre @ scc_text w1 d1 w2 d2 w3 d3 @ rest
        \<and> blank1 w1 \<and> blank1 w2 \<and> blank1 w3 \<and> d1 \<le> 9 \<and> d2 \<le> 9 \<and> d3 \<le> 9
        \<and> (d = d1 \<or> d = d2 \<or> d = d3))"

section \<open>The block extractor\<close>

text \<open>
  \<^verbatim>\<open>str.splitlines\<close>: the line boundaries are the code points below, and
  \<^verbatim>\<open>\r\n\<close> is one boundary. The lines come without their terminators, and a
  terminator at the very end opens no further line.
\<close>

definition islinebreak :: "nat \<Rightarrow> bool" where
  "islinebreak c = (c \<in> {10, 11, 12, 13, 28, 29, 30, 133, 8232, 8233})"

function splitlines :: "pystr \<Rightarrow> pystr list" where
  "splitlines s =
     (if s = [] then []
      else
        let rest = dropWhile (\<lambda>c. \<not> islinebreak c) s
        in takeWhile (\<lambda>c. \<not> islinebreak c) s
           # splitlines (if prefix [13, 10] rest then drop 2 rest else drop 1 rest))"
  by pat_completeness auto
termination
proof (relation "measure length")
  show "wf (measure length)" by simp
next
  fix s rest :: pystr
  assume s: "s \<noteq> []" and rest: "rest = dropWhile (\<lambda>c. \<not> islinebreak c) s"
  have le: "length rest \<le> length s" unfolding rest by (rule length_dropWhile_le)
  have "length (if prefix [13, 10] rest then drop 2 rest else drop 1 rest) < length s"
  proof (cases "rest = []")
    case True
    with s show ?thesis by simp
  next
    case False
    then have "length (if prefix [13, 10] rest then drop 2 rest else drop 1 rest) < length rest"
      by auto
    with le show ?thesis by simp
  qed
  then show "(if prefix [13, 10] rest then drop 2 rest else drop 1 rest, s) \<in> measure length"
    by simp
qed

declare splitlines.simps [simp del]

text \<open>\<^verbatim>\<open>str.split()\<close> with no argument: the maximal runs of non-space code points.\<close>

function split_ws :: "pystr \<Rightarrow> pystr list" where
  "split_ws s =
     (let t = dropWhile isspace s
      in if t = [] then []
         else takeWhile (\<lambda>c. \<not> isspace c) t # split_ws (dropWhile (\<lambda>c. \<not> isspace c) t))"
  by pat_completeness auto
termination
proof (relation "measure length")
  show "wf (measure length)" by simp
next
  fix s t :: pystr
  assume t: "t = dropWhile isspace s" and ne: "t \<noteq> []"
  have "\<not> isspace (hd t)" using ne hd_dropWhile [of isspace s] t by simp
  then have "dropWhile (\<lambda>c. \<not> isspace c) t = dropWhile (\<lambda>c. \<not> isspace c) (tl t)"
    using ne by (cases t) auto
  then have "length (dropWhile (\<lambda>c. \<not> isspace c) t)
      = length (dropWhile (\<lambda>c. \<not> isspace c) (tl t))"
    by simp
  also have "\<dots> \<le> length (tl t)" by (rule length_dropWhile_le)
  also have "\<dots> < length t" using ne by simp
  also have "\<dots> \<le> length s" unfolding t by (rule length_dropWhile_le)
  finally show "(dropWhile (\<lambda>c. \<not> isspace c) t, s) \<in> measure length" by simp
qed

declare split_ws.simps [simp del]

text \<open>\<^verbatim>\<open>sep.join(xs)\<close>.\<close>

fun join :: "pystr \<Rightarrow> pystr list \<Rightarrow> pystr" where
  "join sep [] = []"
| "join sep [x] = x"
| "join sep (x # y # ys) = x @ sep @ join sep (y # ys)"

text \<open>
  \<^verbatim>\<open>s.find(sub)\<close>, with \<open>None\<close> for \<^verbatim>\<open>-1\<close>; \<^verbatim>\<open>s.index(sub)\<close> is the same search and
  raises \<^verbatim>\<open>ValueError\<close> where this is \<open>None\<close>. \<^verbatim>\<open>s.find(sub, start)\<close> searches from
  \<open>start\<close> on and returns a position in \<open>s\<close>.
\<close>

fun str_find :: "pystr \<Rightarrow> pystr \<Rightarrow> nat option" where
  "str_find sub [] = (if sub = [] then Some 0 else None)"
| "str_find sub (c # cs) =
     (if prefix sub (c # cs) then Some 0 else map_option Suc (str_find sub cs))"

definition str_find_from :: "pystr \<Rightarrow> pystr \<Rightarrow> nat \<Rightarrow> nat option" where
  "str_find_from sub s start =
     (if length s < start then None
      else map_option (\<lambda>i. start + i) (str_find sub (drop start s)))"

text \<open>The slice \<^verbatim>\<open>s[a:b]\<close> for non-negative bounds.\<close>

definition slice :: "pystr \<Rightarrow> nat \<Rightarrow> nat \<Rightarrow> pystr" where
  "slice s a b = take (b - a) (drop a s)"

text \<open>
  A pattern of the shapes the program uses is a sequence of items: a digit of
  \<^verbatim>\<open>[0-9]\<close>, a run \<^verbatim>\<open>\s+\<close>, or one literal code point. In these patterns every run of
  white space is followed by an item that is no white space, so a greedy run succeeds
  in one way only. A match at the head of a string gives the matched text and the rest.
\<close>

datatype item = Digit | Spaces | Ch nat

fun match_items :: "item list \<Rightarrow> pystr \<Rightarrow> (pystr \<times> pystr) option" where
  "match_items [] s = Some ([], s)"
| "match_items (Digit # its) s =
     (case s of
        [] \<Rightarrow> None
      | c # r \<Rightarrow> if isdigit09 c
                 then map_option (\<lambda>(m, r'). (c # m, r')) (match_items its r)
                 else None)"
| "match_items (Ch k # its) s =
     (case s of
        [] \<Rightarrow> None
      | c # r \<Rightarrow> if c = k
                 then map_option (\<lambda>(m, r'). (c # m, r')) (match_items its r)
                 else None)"
| "match_items (Spaces # its) s =
     (if takeWhile isspace s = [] then None
      else map_option (\<lambda>(m, r'). (takeWhile isspace s @ m, r'))
             (match_items its (dropWhile isspace s)))"

text \<open>
  The group of
  \<^verbatim>\<open>Received on:\s*([0-9]{4}-[0-9]{2}-[0-9]{2}\s+[0-9]{2}:[0-9]{2}\s+UTC)\<close>.
\<close>

definition received_items :: "item list" where
  "received_items =
     [Digit, Digit, Digit, Digit, Ch 45, Digit, Digit, Ch 45, Digit, Digit, Spaces,
      Digit, Digit, Ch 58, Digit, Digit, Spaces, Ch 85, Ch 84, Ch 67]"

definition received_match :: "pystr \<Rightarrow> pystr option" where
  "received_match s =
     (if prefix (lit ''Received on:'') s
      then map_option fst
             (match_items received_items
                (dropWhile isspace (drop (length (lit ''Received on:'')) s)))
      else None)"

text \<open>\<^verbatim>\<open>re.search\<close>: the match at the leftmost position that has one.\<close>

fun received_search :: "pystr \<Rightarrow> pystr option" where
  "received_search [] = None"
| "received_search (c # cs) =
     (case received_match (c # cs) of
        Some g \<Rightarrow> Some g
      | None \<Rightarrow> received_search cs)"

text \<open>
  The same pattern read off the text, as the specification words it: a timestamp is
  four digits, \<^verbatim>\<open>-\<close>, two digits, \<^verbatim>\<open>-\<close>, two digits, white space, two digits, \<^verbatim>\<open>:\<close>,
  two digits, white space and \<^verbatim>\<open>UTC\<close>; \<open>received_at page g\<close> says that \<open>g\<close> is such a
  timestamp standing in \<open>page\<close> after \<^verbatim>\<open>Received on:\<close> and optional white space.
\<close>

definition digits :: "nat \<Rightarrow> pystr \<Rightarrow> bool" where
  "digits n s = (length s = n \<and> list_all isdigit09 s)"

definition stamp_shape :: "pystr \<Rightarrow> bool" where
  "stamp_shape g =
     (\<exists>y m d w1 hh mm w2.
        g = y @ [45] @ m @ [45] @ d @ w1 @ hh @ [58] @ mm @ w2 @ lit ''UTC''
        \<and> digits 4 y \<and> digits 2 m \<and> digits 2 d \<and> blank1 w1
        \<and> digits 2 hh \<and> digits 2 mm \<and> blank1 w2)"

definition received_at :: "pystr \<Rightarrow> pystr \<Rightarrow> bool" where
  "received_at page g =
     (\<exists>pre ws rest.
        page = pre @ lit ''Received on:'' @ ws @ g @ rest
        \<and> list_all isspace ws \<and> stamp_shape g)"

text \<open>
  \<^verbatim>\<open>re.search(r"\bSNOWTAM\b", ln)\<close>. A word boundary lies between a word character
  (\<^verbatim>\<open>\w\<close>, a class of the Unicode database: the parameter \<open>wordchar\<close>) and a code point
  that is none, or an end of the string; \<open>prev\<close> tells whether the code point before
  the current position is a word character.
\<close>

fun word_search :: "(nat \<Rightarrow> bool) \<Rightarrow> pystr \<Rightarrow> bool \<Rightarrow> pystr \<Rightarrow> bool" where
  "word_search wordchar k prev [] = False"
| "word_search wordchar k prev (c # cs) =
     ((\<not> prev \<and> prefix k (c # cs)
        \<and> (case drop (length k) (c # cs) of [] \<Rightarrow> True | d # _ \<Rightarrow> \<not> wordchar d))
      \<or> word_search wordchar k (wordchar c) cs)"

text \<open>\<^verbatim>\<open>re.fullmatch(r"[A-Z0-9]{4}", s)\<close>.\<close>

definition fullmatch_code4 :: "pystr \<Rightarrow> bool" where
  "fullmatch_code4 s =
     (length s = 4 \<and> list_all (\<lambda>c. (65 \<le> c \<and> c \<le> 90) \<or> (48 \<le> c \<and> c \<le> 57)) s)"

text \<open>The non-blank lines, each without its trailing white space.\<close>

definition text_lines :: "pystr \<Rightarrow> pystr list" where
  "text_lines text = map rstrip (filter (\<lambda>ln. strip ln \<noteq> []) (splitlines text))"

text \<open>The three tests of the loop that looks for the first line of the raw block.\<close>

definition is_start :: "(nat \<Rightarrow> bool) \<Rightarrow> pystr list \<Rightarrow> nat \<Rightarrow> bool" where
  "is_start wordchar lines i =
     (let ln = lines ! i
      in (prefix (lit ''SW'') ln \<and> sublist (lit ''SNOWTAM'') (join (lit '' '') (take 5 (drop i lines))))
       \<or> (prefix (lit ''SW'') ln \<and> word_search wordchar (lit ''SNOWTAM'') False ln)
       \<or> (prefix (lit ''SW'') ln \<and> 3 \<le> length (split_ws ln) \<and> fullmatch_code4 (split_ws ln ! 1)))"

definition start_idx :: "(nat \<Rightarrow> bool) \<Rightarrow> pystr list \<Rightarrow> nat option" where
  "start_idx wordchar lines = List.find (is_start wordchar lines) [0..<length lines]"

text \<open>
  The loop that collects the raw block from the start line on; \<open>has_decode\<close> is the
  test on the 120 lines from the start line, which does not change during the loop.
\<close>

fun collect :: "bool \<Rightarrow> pystr list \<Rightarrow> pystr list" where
  "collect has_decode [] = []"
| "collect has_decode (ln # rest) =
     (if (suffix (lit '').'') (strip ln) \<or> suffix (lit '')'') (strip ln)) \<and> has_decode
      then [ln]
      else ln # collect has_decode rest)"

definition raw_block :: "(nat \<Rightarrow> bool) \<Rightarrow> pystr \<Rightarrow> pystr" where
  "raw_block wordchar text =
     (let lines = text_lines text
      in case start_idx wordchar lines of
           None \<Rightarrow> []
         | Some i \<Rightarrow>
             strip (join NL
               (collect
                  (sublist (lit ''UNOFFICIAL PLAIN LANGUAGE DECODE'')
                     (join NL (take 120 (drop i lines))))
                  (drop i lines))))"

definition slice_between :: "pystr \<Rightarrow> pystr \<Rightarrow> pystr \<Rightarrow> pystr" where
  "slice_between text head next_head =
     (case str_find head text of
        None \<Rightarrow> []
      | Some a \<Rightarrow>
          (let b = (case str_find_from next_head text (a + length head) of
                      None \<Rightarrow> length text
                    | Some b \<Rightarrow> b)
           in strip (slice text (a + length head) b)))"

definition H_DECODE :: pystr where
  "H_DECODE = lit ''UNOFFICIAL PLAIN LANGUAGE DECODE''"

definition H_OPPOSITE :: pystr where
  "H_OPPOSITE = lit ''UNOFFICIAL PLAIN LANGUAGE DECODE OPPOSITE DIRECTION''"

definition SELECT_VOICE :: pystr where
  "SELECT_VOICE = lit ''Select voice:''"

text \<open>
  The extractor on the text of the page, from the search for \<^verbatim>\<open>Received on:\<close> to the
  \<^verbatim>\<open>return\<close>: no step of this part can raise, the \<^verbatim>\<open>ValueError\<close> of \<^verbatim>\<open>text.index\<close>
  being caught and turned into the empty string.
\<close>

definition extract_from_text :: "(nat \<Rightarrow> bool) \<Rightarrow> pystr \<Rightarrow> pystr \<times> pystr \<times> pystr \<times> pystr" where
  "extract_from_text wordchar text =
     (let received = (case received_search text of None \<Rightarrow> [] | Some g \<Rightarrow> g);
          raw = raw_block wordchar text;
          decode = slice_between text H_DECODE H_OPPOSITE;
          decode2 = slice_between text H_OPPOSITE SELECT_VOICE
      in (received, raw, decode, decode2))"

text \<open>
  The first two statements, \<^verbatim>\<open>soup = BeautifulSoup(html, "html.parser")\<close> and
  \<^verbatim>\<open>text = soup.get_text("\n")\<close>, belong to a library and are the parameter \<open>get_text\<close>:
  the text of the page, or the exception that the constructor raises on markup that
  \<^verbatim>\<open>html.parser\<close> refuses. \<open>extract_text_blocks\<close> has no handler of its own, so the
  exception leaves the function (the caller's \<^verbatim>\<open>try\<close> in \<^verbatim>\<open>main\<close> records the airport
  with severity \<^verbatim>\<open>unknown\<close>).
\<close>

datatype error = ParserRejectedMarkup

definition extract_text_blocks ::
    "(pystr \<Rightarrow> error + pystr) \<Rightarrow> (nat \<Rightarrow> bool) \<Rightarrow> pystr
      \<Rightarrow> error + (pystr \<times> pystr \<times> pystr \<times> pystr)" where
  "extract_text_blocks get_text wordchar html =
     (case get_text html of
        Inl e \<Rightarrow> Inl e
      | Inr text \<Rightarrow> Inr (extract_from_text wordchar text))"

text \<open>
  The parser on the pages of the examples, as an instance of \<open>get_text\<close>. It covers two
  kinds of page. A page with no \<^verbatim>\<open><\<close> and no \<^verbatim>\<open>&\<close> is one text node, and its text is the
  page itself. A page whose first markup is a marked section \<^verbatim>\<open><![\<close> that
  \<^verbatim>\<open>html.parser\<close> refuses makes the constructor raise: \<^verbatim>\<open>parse_marked_section\<close> reads a
  name (\<^verbatim>\<open>[a-zA-Z][-_.a-zA-Z0-9]*\s*\<close>) after \<^verbatim>\<open><![\<close>, raises \<^verbatim>\<open>AssertionError\<close> when there
  is none or when the name, which must not run to the end of the page, is none of the
  eight keywords, and \<^verbatim>\<open>bs4\<close> raises \<^verbatim>\<open>ParserRejectedMarkup\<close> from it. Pages with other
  markup need the tree builder and are outside this instance.
\<close>

definition ascii_letter :: "nat \<Rightarrow> bool" where
  "ascii_letter c = ((65 \<le> c \<and> c \<le> 90) \<or> (97 \<le> c \<and> c \<le> 122))"

definition declname_char :: "nat \<Rightarrow> bool" where
  "declname_char c = (ascii_letter c \<or> (48 \<le> c \<and> c \<le> 57) \<or> c = 45 \<or> c = 95 \<or> c = 46)"

definition lower_ascii :: "pystr \<Rightarrow> pystr" where
  "lower_ascii s = map (\<lambda>c. if 65 \<le> c \<and> c \<le> 90 then c + 32 else c) s"

definition marked_section_keywords :: "pystr list" where
  "marked_section_keywords =
     [lit ''temp'', lit ''cdata'', lit ''ignore'', lit ''include'', lit ''rcdata'',
      lit ''if'', lit ''else'', lit ''endif'']"

definition marked_section_rejected :: "pystr \<Rightarrow> bool" where
  "marked_section_rejected s =
     (prefix (lit ''<!['') s \<and>
      (case drop 3 s of
         [] \<Rightarrow> False
       | c # r \<Rightarrow>
           if ascii_letter c
           then (let name = c # takeWhile declname_char r;
                     rest = dropWhile isspace (dropWhile declname_char r)
                 in rest \<noteq> [] \<and> lower_ascii name \<notin> set marked_section_keywords)
           else True))"

definition html_text :: "pystr \<Rightarrow> error + pystr" where
  "html_text html =
     (if marked_section_rejected (dropWhile (\<lambda>c. c \<noteq> 60 \<and> c \<noteq> 38) html)
      then Inl ParserRejectedMarkup
      else Inr html)"

text \<open>
  The class \<^verbatim>\<open>\w\<close> restricted to ASCII: a concrete instance of the parameter
  \<open>wordchar\<close>.
\<close>

definition wordchar_ascii :: "nat \<Rightarrow> bool" where
  "wordchar_ascii c = ((48 \<le> c \<and> c \<le> 57) \<or> (65 \<le> c \<and> c \<le> 90) \<or> c = 95 \<or> (97 \<le> c \<and> c \<le> 122))"

text \<open>
  \<open>first_after pre sub\<close>: in a text \<open>pre @ sub @ post\<close>, no occurrence of \<open>sub\<close> starts
  inside \<open>pre\<close>, so that the occurrence after \<open>pre\<close> is the first one.
\<close>

definition first_after :: "pystr \<Rightarrow> pystr \<Rightarrow> bool" where
  "first_after pre sub = (\<not> sublist sub (pre @ butlast sub))"

section \<open>The timestamp helper\<close>





























text \<open>
  The ASCII digit of a value below ten.
\<close>

definition dg :: "nat \<Rightarrow> nat" where
  "dg k = 48 + k"

section \<open>The fingerprint helper\<close>

unbundle bit_operations_syntax

text \<open>
  \<^verbatim>\<open>p.encode("utf-8", errors="ignore")\<close> on one code point, as byte values. A surrogate
  (\<^verbatim>\<open>U+D800\<close> to \<^verbatim>\<open>U+DFFF\<close>) cannot be encoded and is dropped by \<^verbatim>\<open>errors="ignore"\<close>.
  A Python string holds no number from \<^verbatim>\<open>0x110000\<close> on.
\<close>

definition utf8_bytes :: "nat \<Rightarrow> nat list" where
  "utf8_bytes c =
     (if c < 0x80 then [c]
      else if c < 0x800 then [0xC0 + c div 64, 0x80 + c mod 64]
      else if 0xD800 \<le> c \<and> c \<le> 0xDFFF then []
      else if c < 0x10000 then [0xE0 + c div 4096, 0x80 + c div 64 mod 64, 0x80 + c mod 64]
      else if c < 0x110000
        then [0xF0 + c div 262144, 0x80 + c div 4096 mod 64, 0x80 + c div 64 mod 64,
              0x80 + c mod 64]
      else [])"

definition utf8_encode :: "pystr \<Rightarrow> 8 word list" where
  "utf8_encode s = map of_nat (concat (map utf8_bytes s))"

subsection \<open>SHA-256\<close>

text \<open>\<^verbatim>\<open>hashlib.sha256\<close>, as FIPS 180-4 defines it.\<close>

definition rotr :: "nat \<Rightarrow> 32 word \<Rightarrow> 32 word" where
  "rotr n x = word_rotr n x"

definition sha_ch :: "32 word \<Rightarrow> 32 word \<Rightarrow> 32 word \<Rightarrow> 32 word" where
  "sha_ch x y z = (x AND y) XOR (NOT x AND z)"

definition sha_maj :: "32 word \<Rightarrow> 32 word \<Rightarrow> 32 word \<Rightarrow> 32 word" where
  "sha_maj x y z = (x AND y) XOR (x AND z) XOR (y AND z)"

definition Sigma0 :: "32 word \<Rightarrow> 32 word" where
  "Sigma0 x = rotr 2 x XOR rotr 13 x XOR rotr 22 x"

definition Sigma1 :: "32 word \<Rightarrow> 32 word" where
  "Sigma1 x = rotr 6 x XOR rotr 11 x XOR rotr 25 x"

definition sigma0 :: "32 word \<Rightarrow> 32 word" where
  "sigma0 x = rotr 7 x XOR rotr 18 x XOR drop_bit 3 x"

definition sigma1 :: "32 word \<Rightarrow> 32 word" where
  "sigma1 x = rotr 17 x XOR rotr 19 x XOR drop_bit 10 x"

text \<open>
  The 64 round constants, in decimal: the first 32 bits of the fractional part of the
  cube root of each of the first 64 primes (1116352408 is \<^verbatim>\<open>0x428a2f98\<close>, for the prime 2).
\<close>

definition K256 :: "32 word list" where
  "K256 =
     [1116352408, 1899447441, 3049323471, 3921009573, 961987163, 1508970993,
      2453635748, 2870763221, 3624381080, 310598401, 607225278, 1426881987,
      1925078388, 2162078206, 2614888103, 3248222580, 3835390401, 4022224774,
      264347078, 604807628, 770255983, 1249150122, 1555081692, 1996064986,
      2554220882, 2821834349, 2952996808, 3210313671, 3336571891, 3584528711,
      113926993, 338241895, 666307205, 773529912, 1294757372, 1396182291,
      1695183700, 1986661051, 2177026350, 2456956037, 2730485921, 2820302411,
      3259730800, 3345764771, 3516065817, 3600352804, 4094571909, 275423344,
      430227734, 506948616, 659060556, 883997877, 958139571, 1322822218,
      1537002063, 1747873779, 1955562222, 2024104815, 2227730452, 2361852424,
      2428436474, 2756734187, 3204031479, 3329325298]"

type_synonym sha_state =
  "32 word \<times> 32 word \<times> 32 word \<times> 32 word \<times> 32 word \<times> 32 word \<times> 32 word \<times> 32 word"

definition H256 :: sha_state where
  "H256 = (0x6a09e667, 0xbb67ae85, 0x3c6ef372, 0xa54ff53a,
           0x510e527f, 0x9b05688c, 0x1f83d9ab, 0x5be0cd19)"

text \<open>The padded message: the bit \<open>1\<close>, zeros, and the length in bits as 64 bits.\<close>

definition be_bytes :: "nat \<Rightarrow> nat \<Rightarrow> 8 word list" where
  "be_bytes n v = map (\<lambda>i. of_nat (v div 256 ^ (n - 1 - i))) [0..<n]"

definition sha_pad :: "8 word list \<Rightarrow> 8 word list" where
  "sha_pad m =
     m @ [0x80] @ replicate ((119 - length m mod 64) mod 64) 0
       @ be_bytes 8 ((8 * length m) mod 2 ^ 64)"

function chunks :: "nat \<Rightarrow> 'a list \<Rightarrow> 'a list list" where
  "chunks n xs = (if n = 0 \<or> xs = [] then [] else take n xs # chunks n (drop n xs))"
  by pat_completeness auto
termination
  by (relation "measure (\<lambda>(n, xs). length xs)") auto

declare chunks.simps [simp del]

definition be_word :: "8 word list \<Rightarrow> 32 word" where
  "be_word bs = fold (\<lambda>b w. push_bit 8 w OR ucast b) bs 0"

text \<open>The message schedule: \<open>n\<close> more words after the ones of the block.\<close>

fun schedule :: "nat \<Rightarrow> 32 word list \<Rightarrow> 32 word list" where
  "schedule 0 w = w"
| "schedule (Suc n) w =
     schedule n
       (w @ [sigma1 (w ! (length w - 2)) + w ! (length w - 7)
             + sigma0 (w ! (length w - 15)) + w ! (length w - 16)])"

fun sha_round :: "32 word \<times> 32 word \<Rightarrow> sha_state \<Rightarrow> sha_state" where
  "sha_round (k, w) (a, b, c, d, e, f, g, h) =
     (let t1 = h + Sigma1 e + sha_ch e f g + k + w;
          t2 = Sigma0 a + sha_maj a b c
      in (t1 + t2, a, b, c, d + t1, e, f, g))"

fun sha_add :: "sha_state \<Rightarrow> sha_state \<Rightarrow> sha_state" where
  "sha_add (a, b, c, d, e, f, g, h) (a', b', c', d', e', f', g', h') =
     (a + a', b + b', c + c', d + d', e + e', f + f', g + g', h + h')"

definition sha_compress :: "8 word list \<Rightarrow> sha_state \<Rightarrow> sha_state" where
  "sha_compress block st =
     sha_add st (fold sha_round (zip K256 (schedule 48 (map be_word (chunks 4 block)))) st)"

definition word_bytes :: "32 word \<Rightarrow> 8 word list" where
  "word_bytes w = [ucast (drop_bit 24 w), ucast (drop_bit 16 w), ucast (drop_bit 8 w), ucast w]"

fun state_bytes :: "sha_state \<Rightarrow> 8 word list" where
  "state_bytes (a, b, c, d, e, f, g, h) =
     concat (map word_bytes [a, b, c, d, e, f, g, h])"

definition sha256 :: "8 word list \<Rightarrow> 8 word list" where
  "sha256 m = state_bytes (fold sha_compress (chunks 64 (sha_pad m)) H256)"

text \<open>\<^verbatim>\<open>hexdigest\<close>: two lower-case hexadecimal digits for every byte.\<close>

definition hexdigit :: "nat \<Rightarrow> nat" where
  "hexdigit k = (if k < 10 then 48 + k else 87 + k)"

definition hex_byte :: "8 word \<Rightarrow> pystr" where
  "hex_byte b = [hexdigit (unat b div 16), hexdigit (unat b mod 16)]"

definition hexdigest :: "8 word list \<Rightarrow> pystr" where
  "hexdigest bs = concat (map hex_byte bs)"

subsection \<open>The helper and its call\<close>

definition SEP :: "8 word list" where
  "SEP = utf8_encode (NL @ lit ''---'' @ NL)"

definition hash_input :: "pystr list \<Rightarrow> 8 word list" where
  "hash_input parts = concat (map (\<lambda>p. utf8_encode p @ SEP) parts)"

definition stable_hash :: "pystr list \<Rightarrow> pystr" where
  "stable_hash parts = take 16 (hexdigest (sha256 (hash_input parts)))"

text \<open>
  The fingerprint of a record, as \<^verbatim>\<open>main\<close> computes it:
  \<^verbatim>\<open>stable_hash(raw.strip(), dec.strip(), dec2.strip())\<close>.
\<close>

definition record_hash :: "pystr \<Rightarrow> pystr \<Rightarrow> pystr \<Rightarrow> pystr" where
  "record_hash raw dec dec2 = stable_hash [strip raw, strip dec, strip dec2]"

text \<open>
  The strings that UTF-8 encodes in full: code points up to \<^verbatim>\<open>U+10FFFF\<close>, no surrogate.
\<close>

definition encodable :: "pystr \<Rightarrow> bool" where
  "encodable s = (\<forall>c\<in>set s. c < 0x110000 \<and> \<not> (0xD800 \<le> c \<and> c \<le> 0xDFFF))"

text \<open>
  The first code point of a UTF-8 byte sequence and the bytes after it: the inverse of
  \<open>utf8_bytes\<close>, used to show that the encoding loses nothing.
\<close>

definition utf8_first :: "nat list \<Rightarrow> (nat \<times> nat list) option" where
  "utf8_first bs =
     (case bs of
        [] \<Rightarrow> None
      | b0 # r \<Rightarrow>
          if b0 < 0x80 then Some (b0, r)
          else if b0 < 0xE0 then
            (case r of
               b1 # r' \<Rightarrow> Some ((b0 - 0xC0) * 64 + (b1 - 0x80), r')
             | _ \<Rightarrow> None)
          else if b0 < 0xF0 then
            (case r of
               b1 # b2 # r' \<Rightarrow> Some ((b0 - 0xE0) * 4096 + (b1 - 0x80) * 64 + (b2 - 0x80), r')
             | _ \<Rightarrow> None)
          else
            (case r of
               b1 # b2 # b3 # r' \<Rightarrow>
                 Some ((b0 - 0xF0) * 262144 + (b1 - 0x80) * 4096 + (b2 - 0x80) * 64
                       + (b3 - 0x80), r')
             | _ \<Rightarrow> None))"

section \<open>Properties of the classifier\<close>

lemma dropWhile_all_Nil: "(\<forall>x\<in>set (dropWhile P xs). P x) \<longleftrightarrow> dropWhile P xs = []"
proof (cases "dropWhile P xs")
  case Nil
  then show ?thesis by (simp del: dropWhile_eq_Nil_conv)
next
  case (Cons y ys)
  then have "\<not> P y" using hd_dropWhile [of P xs] by simp
  with Cons show ?thesis by auto
qed

lemma strip_Nil_iff: "strip s = [] \<longleftrightarrow> (\<forall>c\<in>set s. isspace c)"
proof -
  have "strip s = [] \<longleftrightarrow> (\<forall>x\<in>set (dropWhile isspace s). isspace x)"
    by (simp add: strip_def lstrip_def rstrip_def)
  also have "\<dots> \<longleftrightarrow> dropWhile isspace s = []"
    by (rule dropWhile_all_Nil)
  finally show ?thesis by simp
qed

text \<open>
  C3. When the raw block is empty or consists of white space only, the classifier
  returns the pair \<^verbatim>\<open>("ok", "No valid SNOWTAM")\<close>, whatever the decode block holds and
  whatever the other rules would say.
\<close>

theorem C3_blank_raw_is_ok:
  assumes "\<forall>c\<in>set raw. isspace c"
  shows "snowtam_severity uc raw decode = (lit ''ok'', lit ''No valid SNOWTAM'')"
  using assms by (simp add: snowtam_severity_def strip_Nil_iff)

theorem C3_blank_raw_is_ok_witness:
  "snowtam_severity uc_ascii (lit '' '' @ NL) (lit ''RWY CLSD SURFACE CONDITION CODE 1 1 1'')
     = (lit ''ok'', lit ''No valid SNOWTAM'')"
  using C3_blank_raw_is_ok [of "lit '' '' @ NL" uc_ascii "lit ''RWY CLSD SURFACE CONDITION CODE 1 1 1''"]
  by (simp add: lit_def NL_def isspace_def)

lemma upper_append: "upper uc (xs @ ys) = upper uc xs @ upper uc ys"
  by (simp add: upper_def)

lemma sublist_upper: "sublist v s \<Longrightarrow> sublist (upper uc v) (upper uc s)"
proof -
  assume "sublist v s"
  then obtain ps ss where "s = ps @ v @ ss" by (auto simp: sublist_def)
  then have "upper uc s = upper uc ps @ upper uc v @ upper uc ss"
    by (simp add: upper_append)
  then show ?thesis unfolding sublist_def by blast
qed

lemma upper_uc_ascii_below:
  "\<forall>d\<in>set (upper uc_ascii v). d < 128 \<Longrightarrow> \<forall>c\<in>set v. c < 128"
  by (induction v) (auto simp: upper_def uc_ascii_def split: if_splits)

lemma upper_ascii_cased:
  assumes "ascii_cased uc" and "\<forall>c\<in>set v. c < 128"
  shows "upper uc v = upper uc_ascii v"
  using assms by (induction v) (auto simp: upper_def ascii_cased_def)

lemma ws_digit_le9: "ws_digit s = Some (d, r) \<Longrightarrow> d \<le> 9"
  by (auto simp: ws_digit_def isdigit09_def split: if_splits list.splits)

lemma scc_match_le9: "scc_match s = Some (ds, r) \<Longrightarrow> x \<in> set ds \<Longrightarrow> x \<le> 9"
  by (auto simp: scc_match_def split: if_splits option.splits) (blast intro: ws_digit_le9)+

lemma surface_codes_digit: "d \<in> set (surface_codes s) \<Longrightarrow> d \<le> 9"
proof (induction s arbitrary: d rule: surface_codes.induct)
  case 1
  then show ?case by simp
next
  case (2 c cs)
  show ?case
  proof (cases "scc_match (c # cs)")
    case None
    with 2 show ?thesis by simp
  next
    case (Some p)
    obtain ds r where p: "p = (ds, r)" by (cases p)
    with 2 Some show ?thesis by (auto dest: scc_match_le9)
  qed
qed

lemma sublist_in_left: "sublist v a \<Longrightarrow> sublist v (a @ b)"
proof -
  assume "sublist v a"
  then obtain ps ss where "a = ps @ v @ ss" by (auto simp: sublist_def)
  then have "a @ b = ps @ v @ (ss @ b)" by simp
  then show ?thesis unfolding sublist_def by blast
qed

lemma sublist_in_right: "sublist v b \<Longrightarrow> sublist v (a @ b)"
proof -
  assume "sublist v b"
  then obtain ps ss where "b = ps @ v @ ss" by (auto simp: sublist_def)
  then have "a @ b = (a @ ps) @ v @ ss" by simp
  then show ?thesis unfolding sublist_def by blast
qed

lemma closure_hit:
  assumes "strip raw \<noteq> []" and "k \<in> set closure_words"
    and "sublist k (upper uc (raw @ NL @ decode))"
  shows "snowtam_severity uc raw decode = (lit ''red'', lit ''Runway closed indicator found'')"
proof -
  have "list_ex (\<lambda>k. sublist k (upper uc (raw @ NL @ decode))) closure_words"
    using assms(2,3) by (auto simp: list_ex_iff)
  with assms(1) show ?thesis by (simp add: snowtam_severity_def)
qed

subsection \<open>The scanner finds exactly the occurrences of the pattern\<close>

lemma digit_not_space: "d \<le> 9 \<Longrightarrow> \<not> isspace (48 + d)"
  by (auto simp: isspace_def)

lemma ws_digit_run:
  assumes "blank1 w" "d \<le> 9"
  shows "ws_digit (w @ (48 + d) # r) = Some (d, r)"
proof -
  have a: "\<forall>x\<in>set w. isspace x" and ne: "w \<noteq> []"
    using assms(1) by (simp_all add: blank1_def list_all_iff)
  have ns: "\<not> isspace (48 + d)" using assms(2) by (rule digit_not_space)
  have t: "takeWhile isspace (w @ (48 + d) # r) = w"
    using a ns by (simp add: takeWhile_append2)
  have dr: "dropWhile isspace (w @ (48 + d) # r) = (48 + d) # r"
    using a ns by (simp add: dropWhile_append2)
  show ?thesis using ne assms(2) by (simp add: ws_digit_def t dr isdigit09_def)
qed

lemma ws_digit_Some:
  assumes "ws_digit s = Some (d, r)"
  shows "\<exists>w. s = w @ (48 + d) # r \<and> blank1 w \<and> d \<le> 9"
proof -
  let ?w = "takeWhile isspace s"
  from assms obtain c where ne: "?w \<noteq> []" and dr: "dropWhile isspace s = c # r"
    and c: "isdigit09 c" and d: "d = c - 48"
    by (auto simp: ws_digit_def split: if_splits list.splits)
  have "s = ?w @ dropWhile isspace s" by simp
  then have "s = ?w @ c # r" using dr by simp
  moreover have "c = 48 + d" "d \<le> 9" using c d by (auto simp: isdigit09_def)
  moreover have "blank1 ?w" using ne by (auto simp: blank1_def list_all_iff dest: set_takeWhileD)
  ultimately show ?thesis by blast
qed

lemma scc_match_text:
  assumes "blank1 w1" "blank1 w2" "blank1 w3" "d1 \<le> 9" "d2 \<le> 9" "d3 \<le> 9"
  shows "scc_match (scc_text w1 d1 w2 d2 w3 d3 @ rest) = Some ([d1, d2, d3], rest)"
proof -
  have 1: "ws_digit (w1 @ (48 + d1) # w2 @ (48 + d2) # w3 @ (48 + d3) # rest)
      = Some (d1, w2 @ (48 + d2) # w3 @ (48 + d3) # rest)"
    using assms by (intro ws_digit_run)
  have 2: "ws_digit (w2 @ (48 + d2) # w3 @ (48 + d3) # rest) = Some (d2, w3 @ (48 + d3) # rest)"
    using assms by (intro ws_digit_run)
  have 3: "ws_digit (w3 @ (48 + d3) # rest) = Some (d3, rest)"
    using assms by (intro ws_digit_run)
  show ?thesis by (simp add: scc_match_def scc_text_def 1 2 3)
qed

lemma scc_match_Some:
  assumes "scc_match s = Some (ds, r)"
  shows "\<exists>w1 d1 w2 d2 w3 d3. s = scc_text w1 d1 w2 d2 w3 d3 @ r
           \<and> blank1 w1 \<and> blank1 w2 \<and> blank1 w3 \<and> d1 \<le> 9 \<and> d2 \<le> 9 \<and> d3 \<le> 9
           \<and> ds = [d1, d2, d3]"
proof -
  let ?k = "lit ''SURFACE CONDITION CODE''"
  from assms obtain d1 r1 d2 r2 d3 where p: "prefix ?k s"
    and a: "ws_digit (drop (length ?k) s) = Some (d1, r1)"
    and b: "ws_digit r1 = Some (d2, r2)" and c: "ws_digit r2 = Some (d3, r)"
    and ds: "ds = [d1, d2, d3]"
    by (auto simp: scc_match_def split: if_splits option.splits)
  from p have s: "s = ?k @ drop (length ?k) s" by (metis append_eq_conv_conj prefix_def)
  from a obtain w1 where 1: "drop (length ?k) s = w1 @ (48 + d1) # r1" "blank1 w1" "d1 \<le> 9"
    using ws_digit_Some by blast
  from b obtain w2 where 2: "r1 = w2 @ (48 + d2) # r2" "blank1 w2" "d2 \<le> 9"
    using ws_digit_Some by blast
  from c obtain w3 where 3: "r2 = w3 @ (48 + d3) # r" "blank1 w3" "d3 \<le> 9"
    using ws_digit_Some by blast
  have "s = scc_text w1 d1 w2 d2 w3 d3 @ r"
    using s 1(1) 2(1) 3(1) by (simp add: scc_text_def)
  with 1 2 3 ds show ?thesis by blast
qed

lemma scc_text_head:
  assumes "blank1 w1" "blank1 w2" "blank1 w3" "d1 \<le> 9" "d2 \<le> 9" "d3 \<le> 9"
  shows "\<exists>m. scc_text w1 d1 w2 d2 w3 d3 = 83 # m \<and> 83 \<notin> set m"
proof -
  have w: "83 \<notin> set w" if "blank1 w" for w
    using that by (auto simp: blank1_def list_all_iff isspace_def)
  let ?m = "tl (lit ''SURFACE CONDITION CODE'') @ w1 @ [48 + d1] @ w2 @ [48 + d2] @ w3 @ [48 + d3]"
  have "scc_text w1 d1 w2 d2 w3 d3 = 83 # ?m" by (simp add: scc_text_def lit_def)
  moreover have "83 \<notin> set ?m" using assms w by (auto simp: lit_def)
  ultimately show ?thesis by blast
qed

lemma surface_codes_sound: "d \<in> set (surface_codes t) \<Longrightarrow> code_in t d"
proof (induction t arbitrary: d rule: surface_codes.induct)
  case 1
  then show ?case by simp
next
  case (2 c cs)
  show ?case
  proof (cases "scc_match (c # cs)")
    case None
    with 2(1,3) have "code_in cs d" by simp
    then obtain pre w1 d1 w2 d2 w3 d3 rest where
      "cs = pre @ scc_text w1 d1 w2 d2 w3 d3 @ rest" "blank1 w1" "blank1 w2" "blank1 w3"
      "d1 \<le> 9" "d2 \<le> 9" "d3 \<le> 9" "d = d1 \<or> d = d2 \<or> d = d3"
      unfolding code_in_def by blast
    then have "c # cs = (c # pre) @ scc_text w1 d1 w2 d2 w3 d3 @ rest \<and> blank1 w1 \<and> blank1 w2
        \<and> blank1 w3 \<and> d1 \<le> 9 \<and> d2 \<le> 9 \<and> d3 \<le> 9 \<and> (d = d1 \<or> d = d2 \<or> d = d3)"
      by simp
    then show ?thesis unfolding code_in_def by blast
  next
    case (Some p)
    obtain ds r where p: "p = (ds, r)" by (cases p)
    from Some p obtain w1 d1 w2 d2 w3 d3 where m:
      "c # cs = scc_text w1 d1 w2 d2 w3 d3 @ r" "blank1 w1" "blank1 w2" "blank1 w3"
      "d1 \<le> 9" "d2 \<le> 9" "d3 \<le> 9" "ds = [d1, d2, d3]"
      using scc_match_Some by blast
    from 2(3) Some p have "d \<in> set ds \<or> d \<in> set (surface_codes r)" by simp
    then show ?thesis
    proof
      assume "d \<in> set ds"
      with m have "c # cs = [] @ scc_text w1 d1 w2 d2 w3 d3 @ r \<and> blank1 w1 \<and> blank1 w2
        \<and> blank1 w3 \<and> d1 \<le> 9 \<and> d2 \<le> 9 \<and> d3 \<le> 9 \<and> (d = d1 \<or> d = d2 \<or> d = d3)"
        by auto
      then show ?thesis unfolding code_in_def by blast
    next
      assume "d \<in> set (surface_codes r)"
      then have "code_in r d" using 2(2) [OF Some p [symmetric]] by simp
      then obtain pre v1 e1 v2 e2 v3 e3 rest where
        "r = pre @ scc_text v1 e1 v2 e2 v3 e3 @ rest" "blank1 v1" "blank1 v2" "blank1 v3"
        "e1 \<le> 9" "e2 \<le> 9" "e3 \<le> 9" "d = e1 \<or> d = e2 \<or> d = e3"
        unfolding code_in_def by blast
      then have "c # cs = (scc_text w1 d1 w2 d2 w3 d3 @ pre) @ scc_text v1 e1 v2 e2 v3 e3 @ rest
          \<and> blank1 v1 \<and> blank1 v2 \<and> blank1 v3 \<and> e1 \<le> 9 \<and> e2 \<le> 9 \<and> e3 \<le> 9
          \<and> (d = e1 \<or> d = e2 \<or> d = e3)"
        using m(1) by simp
      then show ?thesis unfolding code_in_def by blast
    qed
  qed
qed

lemma surface_codes_complete_aux:
  assumes "t = pre @ scc_text w1 d1 w2 d2 w3 d3 @ rest"
    and "blank1 w1" "blank1 w2" "blank1 w3" "d1 \<le> 9" "d2 \<le> 9" "d3 \<le> 9"
  shows "{d1, d2, d3} \<subseteq> set (surface_codes t)"
  using assms(1)
proof (induction t arbitrary: pre rule: surface_codes.induct)
  case 1
  then show ?case using scc_text_head [OF assms(2-7)] by auto
next
  case (2 c cs)
  let ?M = "scc_text w1 d1 w2 d2 w3 d3"
  obtain m where M: "?M = 83 # m" "83 \<notin> set m"
    using scc_text_head [OF assms(2-7)] by blast
  show ?case
  proof (cases pre)
    case Nil
    with 2(3) have "scc_match (c # cs) = Some ([d1, d2, d3], rest)"
      using scc_match_text [OF assms(2-7), of rest] by simp
    then show ?thesis by simp
  next
    case (Cons p pre')
    show ?thesis
    proof (cases "scc_match (c # cs)")
      case None
      have "cs = pre' @ ?M @ rest" using 2(3) Cons by simp
      then have "{d1, d2, d3} \<subseteq> set (surface_codes cs)" using "2.IH"(1) [OF None] by blast
      with None show ?thesis by simp
    next
      case (Some q)
      obtain ds r where q: "q = (ds, r)" by (cases q)
      from Some q obtain v1 e1 v2 e2 v3 e3 where mm:
        "c # cs = scc_text v1 e1 v2 e2 v3 e3 @ r" "blank1 v1" "blank1 v2" "blank1 v3"
        "e1 \<le> 9" "e2 \<le> 9" "e3 \<le> 9"
        using scc_match_Some by blast
      obtain m' where M': "scc_text v1 e1 v2 e2 v3 e3 = 83 # m'" "83 \<notin> set m'"
        using scc_text_head [OF mm(2-7)] by blast
      have eq: "pre @ ?M @ rest = (83 # m') @ r" using 2(3) mm(1) M'(1) by simp
      then obtain us where us: "(pre = (83 # m') @ us \<and> us @ ?M @ rest = r)
          \<or> (pre @ us = 83 # m' \<and> ?M @ rest = us @ r)"
        unfolding append_eq_append_conv2 by blast
      have "\<exists>vs. r = vs @ ?M @ rest"
      proof (cases "pre = (83 # m') @ us \<and> us @ ?M @ rest = r")
        case True
        then show ?thesis by blast
      next
        case False
        with us have b: "pre @ us = 83 # m'" "?M @ rest = us @ r" by blast+
        show ?thesis
        proof (cases us)
          case Nil
          with b have "pre = (83 # m') @ []" "[] @ ?M @ rest = r" by simp_all
          then show ?thesis by blast
        next
          case (Cons u us')
          with b(2) M(1) have "u = 83" by simp
          moreover from b(1) \<open>pre = p # pre'\<close> have "m' = pre' @ us" by simp
          ultimately show ?thesis using M'(2) Cons by simp
        qed
      qed
      then obtain us where "r = us @ ?M @ rest" by blast
      then have "{d1, d2, d3} \<subseteq> set (surface_codes r)"
        using "2.IH"(2) [OF Some q [symmetric]] by blast
      with Some q show ?thesis by auto
    qed
  qed
qed

lemma surface_codes_mem: "d \<in> set (surface_codes t) \<longleftrightarrow> code_in t d"
proof
  assume "d \<in> set (surface_codes t)"
  then show "code_in t d" by (rule surface_codes_sound)
next
  assume "code_in t d"
  then obtain pre w1 d1 w2 d2 w3 d3 rest where
    a: "t = pre @ scc_text w1 d1 w2 d2 w3 d3 @ rest" "blank1 w1" "blank1 w2" "blank1 w3"
    "d1 \<le> 9" "d2 \<le> 9" "d3 \<le> 9" and d: "d = d1 \<or> d = d2 \<or> d = d3"
    unfolding code_in_def by blast
  have "{d1, d2, d3} \<subseteq> set (surface_codes t)"
    using a by (rule surface_codes_complete_aux)
  with d show "d \<in> set (surface_codes t)" by auto
qed

text \<open>
  C1. Let the raw block be non-blank, let no closure word occur in the upper-cased text
  (raw block, newline, decode block), and let that text not hold both
  \<^verbatim>\<open>BRAKING ACTION\<close> and \<^verbatim>\<open>POOR\<close>. Let \<open>m\<close> be the least digit of all occurrences of
  the pattern \<^verbatim>\<open>SURFACE CONDITION CODE d d d\<close> in the upper-cased decode block: a digit
  of some occurrence, and at most every digit of every occurrence. Then the tier is
  red when \<open>m\<close> is at most 2, orange when it is 3 or 4, and otherwise yellow, upgraded
  to orange when \<^verbatim>\<open>" POOR"\<close> occurs in the upper-cased text; the summary is
  \<^verbatim>\<open>minRWYCC=<m>; poorAreas=<True|False>\<close>.
\<close>

theorem C1_codes_decide_tier:
  assumes raw: "strip raw \<noteq> []"
    and clos: "\<forall>k\<in>set closure_words. \<not> sublist k (upper uc (raw @ NL @ decode))"
    and brk: "\<not> (sublist (lit ''BRAKING ACTION'') (upper uc (raw @ NL @ decode))
                 \<and> sublist (lit ''POOR'') (upper uc (raw @ NL @ decode)))"
    and found: "code_in (upper uc decode) m"
    and least: "\<forall>d. code_in (upper uc decode) d \<longrightarrow> m \<le> d"
  shows "let poor = sublist (lit '' POOR'') (upper uc (raw @ NL @ decode))
         in m \<le> 9 \<and>
            snowtam_severity uc raw decode =
              (if m \<le> 2 then lit ''red''
               else if m \<le> 4 then lit ''orange''
               else if poor then lit ''orange'' else lit ''yellow'',
               lit ''minRWYCC='' @ [48 + m] @ lit ''; poorAreas=''
                 @ (if poor then lit ''True'' else lit ''False''))"
proof -
  define cs where "cs = surface_codes (upper uc decode)"
  have min: "m \<in> set cs" using found by (simp add: cs_def surface_codes_mem)
  then have ne: "cs \<noteq> []" by auto
  have "\<forall>d\<in>set cs. m \<le> d" using least by (simp add: cs_def surface_codes_mem)
  then have "Min (set cs) = m" using min by (intro Min_eqI) auto
  then have mm: "min_list cs = m" using ne by (simp add: min_list_Min)
  have m9: "m \<le> 9" using min unfolding cs_def by (rule surface_codes_digit)
  then have sn: "str_nat m = [48 + m]" by (simp add: str_nat.simps)
  have ex: "\<not> list_ex (\<lambda>k. sublist k (upper uc (raw @ NL @ decode))) closure_words"
    using clos by (simp add: list_ex_iff)
  have ry: "lit ''red'' \<noteq> lit ''yellow''" "lit ''orange'' \<noteq> lit ''yellow''"
    by (simp_all add: lit_def)
  show ?thesis
    using raw ex brk ne mm m9 sn ry
    unfolding snowtam_severity_def Let_def cs_def [symmetric] str_bool_def
    by auto
qed

theorem C1_codes_decide_tier_witness:
  "snowtam_severity uc_ascii (lit ''SWLH0012 LHBP 01090622'')
      (lit ''Surface condition code 6 6 6. surface condition code 1  2 3'')
   = (lit ''red'', lit ''minRWYCC=1; poorAreas=False'')"
proof -
  let ?raw = "lit ''SWLH0012 LHBP 01090622''"
  let ?dec = "lit ''Surface condition code 6 6 6. surface condition code 1  2 3''"
  have u: "upper uc_ascii (?raw @ NL @ ?dec) = lit ''SWLH0012 LHBP 01090622'' @ NL @
      lit ''SURFACE CONDITION CODE 6 6 6. SURFACE CONDITION CODE 1  2 3''"
    by (simp add: lit_def NL_def upper_def uc_ascii_def)
  have ud: "upper uc_ascii ?dec = lit ''SURFACE CONDITION CODE 6 6 6. SURFACE CONDITION CODE 1  2 3''"
    by (simp add: lit_def NL_def upper_def uc_ascii_def)
  have cs: "surface_codes (upper uc_ascii ?dec) = [6, 6, 6, 1, 2, 3]"
    unfolding ud by (simp add: lit_def scc_match_def ws_digit_def isspace_def isdigit09_def)
  have h1: "strip ?raw \<noteq> []" by (simp add: strip_def lstrip_def rstrip_def lit_def isspace_def)
  have h2: "\<forall>k\<in>set closure_words. \<not> sublist k (upper uc_ascii (?raw @ NL @ ?dec))"
    unfolding u by (simp add: lit_def NL_def closure_words_def sublist_code(3))
  have h3: "\<not> (sublist (lit ''BRAKING ACTION'') (upper uc_ascii (?raw @ NL @ ?dec))
                 \<and> sublist (lit ''POOR'') (upper uc_ascii (?raw @ NL @ ?dec)))"
    unfolding u by (simp add: lit_def NL_def sublist_code(3))
  have h4: "code_in (upper uc_ascii ?dec) 1"
    unfolding surface_codes_mem [symmetric] cs by simp
  have h5: "\<forall>d. code_in (upper uc_ascii ?dec) d \<longrightarrow> 1 \<le> d"
    unfolding surface_codes_mem [symmetric] cs by simp
  have p: "\<not> sublist (lit '' POOR'') (upper uc_ascii (?raw @ NL @ ?dec))"
    unfolding u by (simp add: lit_def NL_def sublist_code(3))
  show ?thesis
    using C1_codes_decide_tier [OF h1 h2 h3 h4 h5] p
    by (simp add: Let_def lit_def)
qed

text \<open>
  C2, as amended. When the raw block is not blank and \<^verbatim>\<open>CLSD\<close>, in any mix of upper
  and lower case, occurs in the raw block or in the decode block, the classifier
  returns \<^verbatim>\<open>("red", "Runway closed indicator found")\<close>, whatever condition codes the
  decode block holds. (\<open>v\<close> is the occurrence as it is spelled in the text.)
\<close>

theorem C2_clsd_nonblank_is_red:
  assumes raw: "strip raw \<noteq> []"
    and uc: "ascii_cased uc"
    and v: "upper uc_ascii v = lit ''CLSD''"
    and occ: "sublist v raw \<or> sublist v decode"
  shows "snowtam_severity uc raw decode = (lit ''red'', lit ''Runway closed indicator found'')"
proof -
  have "\<forall>d\<in>set (upper uc_ascii v). d < 128" unfolding v by (simp add: lit_def)
  then have "\<forall>c\<in>set v. c < 128" by (rule upper_uc_ascii_below)
  with uc have uv: "upper uc v = lit ''CLSD''" using v by (simp add: upper_ascii_cased)
  have "sublist v (raw @ NL @ decode)"
    using occ by (auto intro: sublist_in_left sublist_in_right)
  then have "sublist (lit ''CLSD'') (upper uc (raw @ NL @ decode))"
    using sublist_upper [of v "raw @ NL @ decode" uc] uv by simp
  moreover have "lit ''CLSD'' \<in> set closure_words" by (simp add: closure_words_def)
  ultimately show ?thesis using raw closure_hit by blast
qed

theorem C2_clsd_nonblank_is_red_witness:
  "snowtam_severity uc_ascii (lit ''SWLH0012 LHBP'') (lit ''Rwy 13L clsd. SURFACE CONDITION CODE 6 6 6'')
     = (lit ''red'', lit ''Runway closed indicator found'')"
proof -
  have h1: "strip (lit ''SWLH0012 LHBP'') \<noteq> []"
    by (simp add: strip_def lstrip_def rstrip_def lit_def isspace_def)
  have h2: "ascii_cased uc_ascii" by (simp add: ascii_cased_def)
  have h3: "upper uc_ascii (lit ''clsd'') = lit ''CLSD''"
    by (simp add: upper_def uc_ascii_def lit_def)
  have h4: "sublist (lit ''clsd'') (lit ''SWLH0012 LHBP'')
      \<or> sublist (lit ''clsd'') (lit ''Rwy 13L clsd. SURFACE CONDITION CODE 6 6 6'')"
    by (simp add: lit_def sublist_code(3))
  show ?thesis by (rule C2_clsd_nonblank_is_red [OF h1 h2 h3 h4])
qed

text \<open>
  The claim C2 as it is written fails when the raw block is blank: the test on the raw
  block comes first, and a decode block with \<^verbatim>\<open>clsd\<close> in it is still classified ok.
\<close>

theorem C2_blank_raw_counterexample:
  "sublist (lit ''clsd'') ([] @ lit ''rwy clsd'') \<and>
   snowtam_severity uc_ascii [] (lit ''rwy clsd'') = (lit ''ok'', lit ''No valid SNOWTAM'') \<and>
   lit ''ok'' \<noteq> lit ''red''"
  by (simp add: snowtam_severity_def strip_def lstrip_def rstrip_def lit_def sublist_code(3))

text \<open>
  C4. Let the raw block be non-blank, with no closure word and not both
  \<^verbatim>\<open>BRAKING ACTION\<close> and \<^verbatim>\<open>POOR\<close> in the upper-cased text. If the pattern
  \<^verbatim>\<open>SURFACE CONDITION CODE d d d\<close> is not found in the upper-cased decode block, the
  result is \<^verbatim>\<open>("orange", "Could not parse RWYCC; POOR movement area noted")\<close> when
  \<^verbatim>\<open>" POOR"\<close> occurs in the upper-cased text and
  \<^verbatim>\<open>("yellow", "Could not parse RWYCC; SNOWTAM present")\<close> otherwise; it is never ok.
\<close>

theorem C4_no_codes_fallback:
  assumes raw: "strip raw \<noteq> []"
    and clos: "\<forall>k\<in>set closure_words. \<not> sublist k (upper uc (raw @ NL @ decode))"
    and brk: "\<not> (sublist (lit ''BRAKING ACTION'') (upper uc (raw @ NL @ decode))
                 \<and> sublist (lit ''POOR'') (upper uc (raw @ NL @ decode)))"
    and nocodes: "surface_codes (upper uc decode) = []"
  shows "snowtam_severity uc raw decode =
           (if sublist (lit '' POOR'') (upper uc (raw @ NL @ decode))
            then (lit ''orange'', lit ''Could not parse RWYCC; POOR movement area noted'')
            else (lit ''yellow'', lit ''Could not parse RWYCC; SNOWTAM present''))
         \<and> fst (snowtam_severity uc raw decode) \<noteq> lit ''ok''"
proof -
  have ex: "\<not> list_ex (\<lambda>k. sublist k (upper uc (raw @ NL @ decode))) closure_words"
    using clos by (simp add: list_ex_iff)
  have ok: "lit ''orange'' \<noteq> lit ''ok''" "lit ''yellow'' \<noteq> lit ''ok''"
    by (simp_all add: lit_def)
  show ?thesis
    using raw ex brk nocodes ok
    unfolding snowtam_severity_def Let_def by auto
qed

theorem C4_no_codes_fallback_witness:
  "snowtam_severity uc_ascii (lit ''SWLH0012 LHBP 01090622'')
      (lit ''Surface condition code 5 5. Apron poor.'')
   = (lit ''orange'', lit ''Could not parse RWYCC; POOR movement area noted'')
   \<and> snowtam_severity uc_ascii (lit ''SWLH0012 LHBP 01090622'')
      (lit ''Surface condition code 5 5.'')
   = (lit ''yellow'', lit ''Could not parse RWYCC; SNOWTAM present'')"
proof -
  let ?raw = "lit ''SWLH0012 LHBP 01090622''"
  let ?d1 = "lit ''Surface condition code 5 5. Apron poor.''"
  let ?d2 = "lit ''Surface condition code 5 5.''"
  have u1: "upper uc_ascii (?raw @ NL @ ?d1) = lit ''SWLH0012 LHBP 01090622'' @ NL @
      lit ''SURFACE CONDITION CODE 5 5. APRON POOR.''"
    by (simp add: lit_def NL_def upper_def uc_ascii_def)
  have u2: "upper uc_ascii (?raw @ NL @ ?d2) = lit ''SWLH0012 LHBP 01090622'' @ NL @
      lit ''SURFACE CONDITION CODE 5 5.''"
    by (simp add: lit_def NL_def upper_def uc_ascii_def)
  have ud1: "upper uc_ascii ?d1 = lit ''SURFACE CONDITION CODE 5 5. APRON POOR.''"
    by (simp add: lit_def upper_def uc_ascii_def)
  have ud2: "upper uc_ascii ?d2 = lit ''SURFACE CONDITION CODE 5 5.''"
    by (simp add: lit_def upper_def uc_ascii_def)
  have h1: "strip ?raw \<noteq> []"
    by (simp add: strip_def lstrip_def rstrip_def lit_def isspace_def)
  have a2: "\<forall>k\<in>set closure_words. \<not> sublist k (upper uc_ascii (?raw @ NL @ ?d1))"
    unfolding u1 by (simp add: lit_def NL_def closure_words_def sublist_code(3))
  have a3: "\<not> (sublist (lit ''BRAKING ACTION'') (upper uc_ascii (?raw @ NL @ ?d1))
                 \<and> sublist (lit ''POOR'') (upper uc_ascii (?raw @ NL @ ?d1)))"
    unfolding u1 by (simp add: lit_def NL_def sublist_code(3))
  have a4: "surface_codes (upper uc_ascii ?d1) = []"
    unfolding ud1 by (simp add: lit_def scc_match_def ws_digit_def isspace_def isdigit09_def)
  have ap: "sublist (lit '' POOR'') (upper uc_ascii (?raw @ NL @ ?d1))"
    unfolding u1 by (simp add: lit_def NL_def sublist_code(3))
  have b2: "\<forall>k\<in>set closure_words. \<not> sublist k (upper uc_ascii (?raw @ NL @ ?d2))"
    unfolding u2 by (simp add: lit_def NL_def closure_words_def sublist_code(3))
  have b3: "\<not> (sublist (lit ''BRAKING ACTION'') (upper uc_ascii (?raw @ NL @ ?d2))
                 \<and> sublist (lit ''POOR'') (upper uc_ascii (?raw @ NL @ ?d2)))"
    unfolding u2 by (simp add: lit_def NL_def sublist_code(3))
  have b4: "surface_codes (upper uc_ascii ?d2) = []"
    unfolding ud2 by (simp add: lit_def scc_match_def ws_digit_def isspace_def isdigit09_def)
  have bp: "\<not> sublist (lit '' POOR'') (upper uc_ascii (?raw @ NL @ ?d2))"
    unfolding u2 by (simp add: lit_def NL_def sublist_code(3))
  show ?thesis
    using C4_no_codes_fallback [OF h1 a2 a3 a4] C4_no_codes_fallback [OF h1 b2 b3 b4] ap bp
    by simp
qed

section \<open>Properties of the extractor\<close>

lemma strip_Nil [simp]: "strip [] = []"
  by (simp add: strip_def lstrip_def rstrip_def)

lemma strip_decomp: "\<exists>w. dropWhile isspace s = strip s @ w"
proof -
  let ?t = "dropWhile isspace s"
  have "rev (dropWhile isspace (rev ?t)) @ rev (takeWhile isspace (rev ?t))
      = rev (takeWhile isspace (rev ?t) @ dropWhile isspace (rev ?t))"
    by (simp only: rev_append)
  also have "\<dots> = rev (rev ?t)" by (simp only: takeWhile_dropWhile_id)
  also have "\<dots> = ?t" by simp
  finally have "?t = strip s @ rev (takeWhile isspace (rev ?t))"
    by (simp only: strip_def lstrip_def rstrip_def)
  then show ?thesis by blast
qed

lemma strip_ends:
  assumes "strip s \<noteq> []"
  shows "\<not> isspace (hd (strip s))" and "\<not> isspace (last (strip s))"
proof -
  let ?t = "dropWhile isspace s"
  obtain w where w: "?t = strip s @ w" using strip_decomp by blast
  with assms have "?t \<noteq> []" by auto
  then have "\<not> isspace (hd ?t)" using hd_dropWhile [of isspace s] by simp
  moreover have "hd ?t = hd (strip s)" using w assms by (metis hd_append2)
  ultimately show "\<not> isspace (hd (strip s))" by simp
  have ne: "dropWhile isspace (rev ?t) \<noteq> []"
    using assms by (simp add: strip_def lstrip_def rstrip_def)
  have "last (strip s) = hd (dropWhile isspace (rev ?t))"
    using ne by (simp add: strip_def lstrip_def rstrip_def last_rev)
  moreover have "\<not> isspace (hd (dropWhile isspace (rev ?t)))"
    using ne by (rule hd_dropWhile)
  ultimately show "\<not> isspace (last (strip s))" by simp
qed

lemma strip_noop:
  assumes "s \<noteq> []" and "\<not> isspace (hd s)" and "\<not> isspace (last s)"
  shows "strip s = s"
proof -
  have a: "dropWhile isspace s = s" using assms(1,2) by (cases s) auto
  have "rev s \<noteq> []" and "hd (rev s) = last s" using assms(1) by (simp_all add: hd_rev)
  with assms(3) have b: "dropWhile isspace (rev s) = rev s"
    by (simp add: dropWhile_eq_self_iff)
  show ?thesis by (simp add: strip_def lstrip_def rstrip_def a b)
qed

lemma strip_idem: "strip (strip s) = strip s"
proof (cases "strip s = []")
  case True
  then show ?thesis by (simp only: strip_Nil)
next
  case False
  then show ?thesis using strip_ends [OF False] by (intro strip_noop)
qed

lemma match_items_first_digit:
  "match_items (Digit # its) s = Some (m, r) \<Longrightarrow> m \<noteq> [] \<and> isdigit09 (hd m)"
  by (auto split: list.splits if_splits)

lemma match_items_last_char:
  "match_items (its @ [Ch k]) s = Some (m, r) \<Longrightarrow> m \<noteq> [] \<and> last m = k"
proof (induction its arbitrary: s m r)
  case Nil
  then show ?case by (auto split: list.splits if_splits)
next
  case (Cons it its)
  show ?case
  proof (cases it)
    case Digit
    with Cons.prems obtain c s' m' where "s = c # s'" "m = c # m'"
      "match_items (its @ [Ch k]) s' = Some (m', r)"
      by (auto split: list.splits if_splits)
    with Cons.IH [of s' m' r] show ?thesis by auto
  next
    case Spaces
    with Cons.prems obtain m' where "m = takeWhile isspace s @ m'"
      "match_items (its @ [Ch k]) (dropWhile isspace s) = Some (m', r)"
      by (auto split: list.splits if_splits)
    with Cons.IH [of "dropWhile isspace s" m' r] show ?thesis by auto
  next
    case (Ch x)
    with Cons.prems obtain c s' m' where "s = c # s'" "m = c # m'"
      "match_items (its @ [Ch k]) s' = Some (m', r)"
      by (auto split: list.splits if_splits)
    with Cons.IH [of s' m' r] show ?thesis by auto
  qed
qed

lemma received_match_trimmed: "received_match s = Some g \<Longrightarrow> strip g = g"
proof -
  assume a: "received_match s = Some g"
  then obtain t r where m: "match_items received_items t = Some (g, r)"
    by (auto simp: received_match_def split: if_splits)
  have "received_items = Digit # tl received_items" by (simp add: received_items_def)
  with m have d: "g \<noteq> [] \<and> isdigit09 (hd g)" by (metis match_items_first_digit)
  have "received_items = butlast received_items @ [Ch 67]" by (simp add: received_items_def)
  with m have l: "last g = 67" by (metis match_items_last_char)
  have "\<not> isspace (hd g)" using d by (auto simp: isdigit09_def isspace_def)
  moreover have "\<not> isspace (last g)" unfolding l by (simp add: isspace_def)
  ultimately show ?thesis using d by (intro strip_noop) auto
qed

lemma received_search_trimmed: "received_search s = Some g \<Longrightarrow> strip g = g"
  by (induction s) (auto split: option.splits dest: received_match_trimmed)

lemma raw_block_trimmed: "strip (raw_block wordchar text) = raw_block wordchar text"
  by (simp add: raw_block_def Let_def strip_idem split: option.splits)

lemma slice_between_trimmed: "strip (slice_between text h n) = slice_between text h n"
  by (simp add: slice_between_def Let_def strip_idem split: option.splits)

lemma str_find_None_iff: "str_find sub s = None \<longleftrightarrow> \<not> sublist sub s"
  by (induction s) (auto simp: sublist_Cons_right)

lemma slice_between_missing: "\<not> sublist h text \<Longrightarrow> slice_between text h n = []"
  by (simp add: slice_between_def str_find_None_iff [symmetric])

lemma html_text_plain: "60 \<notin> set html \<Longrightarrow> 38 \<notin> set html \<Longrightarrow> html_text html = Inr html"
proof -
  assume "60 \<notin> set html" "38 \<notin> set html"
  then have dw: "dropWhile (\<lambda>c. c \<noteq> 60 \<and> c \<noteq> 38) html = []" by auto
  show ?thesis unfolding html_text_def dw by (simp add: marked_section_rejected_def lit_def)
qed

lemma first_after_not_prefix:
  assumes "first_after (c # pre) sub"
  shows "\<not> prefix sub (c # pre @ sub @ post)"
proof
  assume p: "prefix sub (c # pre @ sub @ post)"
  have ne: "sub \<noteq> []" using assms by (auto simp: first_after_def)
  have ns: "\<not> prefix sub (c # pre @ butlast sub)"
  proof
    assume "prefix sub (c # pre @ butlast sub)"
    then have "sublist sub ((c # pre) @ butlast sub)" by (simp add: prefix_imp_sublist)
    with assms show False by (simp add: first_after_def)
  qed
  have "c # pre @ sub @ post = (c # pre @ butlast sub) @ ([last sub] @ post)"
    using ne by simp
  with p have "prefix sub ((c # pre @ butlast sub) @ ([last sub] @ post))" by simp
  then obtain us where us: "sub = (c # pre @ butlast sub) @ us"
    using ns by (auto simp only: prefix_append)
  then have "length sub = length (c # pre @ butlast sub) + length us" by (metis length_append)
  moreover have "0 < length sub" using ne by simp
  ultimately have "us = []" by simp
  with us have "sub = c # pre @ butlast sub" by simp
  then have "prefix sub (c # pre @ butlast sub)" by simp
  with ns show False by simp
qed

lemma first_after_tail: "first_after (c # pre) sub \<Longrightarrow> first_after pre sub"
  unfolding first_after_def by (simp add: sublist_Cons_right)

lemma str_find_first:
  "first_after pre sub \<Longrightarrow> str_find sub (pre @ sub @ post) = Some (length pre)"
proof (induction pre)
  case Nil
  show ?case
  proof (cases "sub @ post")
    case Nil
    then show ?thesis by simp
  next
    case (Cons a list)
    have "prefix sub (sub @ post)" by simp
    then have "prefix sub (a # list)" unfolding Cons .
    then have "str_find sub (a # list) = Some 0" by simp
    then show ?thesis using Cons by simp
  qed
next
  case (Cons c pre)
  have "\<not> prefix sub (c # pre @ sub @ post)"
    using Cons.prems by (rule first_after_not_prefix)
  moreover have "str_find sub (pre @ sub @ post) = Some (length pre)"
    by (rule Cons.IH) (rule first_after_tail [OF Cons.prems])
  ultimately show ?case by simp
qed

lemma str_find_from_append:
  "str_find_from sub (a @ b) (length a) = map_option (\<lambda>i. length a + i) (str_find sub b)"
  by (simp add: str_find_from_def)

lemma slice_between_found:
  assumes "first_after pre h" and "first_after mid n"
  shows "slice_between (pre @ h @ mid @ n @ post) h n = strip mid"
proof -
  let ?text = "pre @ h @ mid @ n @ post"
  have a: "str_find h ?text = Some (length pre)"
    using assms(1) by (rule str_find_first)
  have "str_find_from n ((pre @ h) @ mid @ n @ post) (length (pre @ h))
      = map_option (\<lambda>i. length (pre @ h) + i) (str_find n (mid @ n @ post))"
    by (rule str_find_from_append)
  then have b: "str_find_from n ?text (length pre + length h)
      = Some (length pre + length h + length mid)"
    using str_find_first [OF assms(2), of post] by simp
  have "slice ?text (length pre + length h) (length pre + length h + length mid) = mid"
    by (simp add: slice_def)
  with a b show ?thesis by (simp add: slice_between_def)
qed

lemma slice_between_to_end:
  assumes "first_after pre h" and "\<not> sublist n rest"
  shows "slice_between (pre @ h @ rest) h n = strip rest"
proof -
  let ?text = "pre @ h @ rest"
  have a: "str_find h ?text = Some (length pre)"
    using str_find_first [OF assms(1), of rest] by simp
  have "str_find_from n ((pre @ h) @ rest) (length (pre @ h))
      = map_option (\<lambda>i. length (pre @ h) + i) (str_find n rest)"
    by (rule str_find_from_append)
  then have b: "str_find_from n ?text (length pre + length h) = None"
    using assms(2) by (simp add: str_find_None_iff)
  have "slice ?text (length pre + length h) (length ?text) = rest"
    by (simp add: slice_def)
  with a b show ?thesis by (simp add: slice_between_def)
qed

text \<open>
  C5, as amended. The decode block is the trimmed text between the end of the first
  occurrence of the heading \<^verbatim>\<open>UNOFFICIAL PLAIN LANGUAGE DECODE\<close> and the first occurrence of
  \<^verbatim>\<open>UNOFFICIAL PLAIN LANGUAGE DECODE OPPOSITE DIRECTION\<close> that starts at or after that end
  (the end of the text when there is none); the opposite-direction block is the trimmed
  text between the end of the first occurrence of the second heading and the first
  \<^verbatim>\<open>Select voice:\<close> after it (the end of the text when there is none). Either block
  may be empty, and a heading that is missing gives the empty string for its block.
\<close>

theorem C5_decode_blocks:
  assumes parse: "get_text html = Inr page"
    and "extract_text_blocks get_text wordchar html = Inr (received, raw, decode, decode2)"
  shows "(page = pre @ H_DECODE @ mid @ H_OPPOSITE @ post
            \<and> first_after pre H_DECODE \<and> first_after mid H_OPPOSITE
          \<longrightarrow> decode = strip mid)
       \<and> (page = pre @ H_DECODE @ rest
            \<and> first_after pre H_DECODE \<and> \<not> sublist H_OPPOSITE rest
          \<longrightarrow> decode = strip rest)
       \<and> (page = pre2 @ H_OPPOSITE @ mid2 @ SELECT_VOICE @ post2
            \<and> first_after pre2 H_OPPOSITE \<and> first_after mid2 SELECT_VOICE
          \<longrightarrow> decode2 = strip mid2)
       \<and> (page = pre2 @ H_OPPOSITE @ rest2
            \<and> first_after pre2 H_OPPOSITE \<and> \<not> sublist SELECT_VOICE rest2
          \<longrightarrow> decode2 = strip rest2)
       \<and> (\<not> sublist H_DECODE page \<longrightarrow> decode = [])
       \<and> (\<not> sublist H_OPPOSITE page \<longrightarrow> decode2 = [])"
proof -
  have d: "decode = slice_between page H_DECODE H_OPPOSITE"
    and d2: "decode2 = slice_between page H_OPPOSITE SELECT_VOICE"
    using assms by (simp_all add: extract_text_blocks_def extract_from_text_def)
  have 1: "page = pre @ H_DECODE @ mid @ H_OPPOSITE @ post
            \<and> first_after pre H_DECODE \<and> first_after mid H_OPPOSITE
          \<longrightarrow> decode = strip mid"
    unfolding d using slice_between_found [of pre H_DECODE mid H_OPPOSITE post] by metis
  have 2: "page = pre @ H_DECODE @ rest
            \<and> first_after pre H_DECODE \<and> \<not> sublist H_OPPOSITE rest
          \<longrightarrow> decode = strip rest"
    unfolding d using slice_between_to_end [of pre H_DECODE H_OPPOSITE rest] by metis
  have 3: "page = pre2 @ H_OPPOSITE @ mid2 @ SELECT_VOICE @ post2
            \<and> first_after pre2 H_OPPOSITE \<and> first_after mid2 SELECT_VOICE
          \<longrightarrow> decode2 = strip mid2"
    unfolding d2 using slice_between_found [of pre2 H_OPPOSITE mid2 SELECT_VOICE post2] by metis
  have 4: "page = pre2 @ H_OPPOSITE @ rest2
            \<and> first_after pre2 H_OPPOSITE \<and> \<not> sublist SELECT_VOICE rest2
          \<longrightarrow> decode2 = strip rest2"
    unfolding d2 using slice_between_to_end [of pre2 H_OPPOSITE SELECT_VOICE rest2] by metis
  have 5: "\<not> sublist H_DECODE page \<longrightarrow> decode = []"
    unfolding d by (simp add: slice_between_missing)
  have 6: "\<not> sublist H_OPPOSITE page \<longrightarrow> decode2 = []"
    unfolding d2 by (simp add: slice_between_missing)
  from 1 2 3 4 5 6 show ?thesis by blast
qed

lemmas hval = H_DECODE_def H_OPPOSITE_def SELECT_VOICE_def lit_def NL_def
lemmas sval = strip_def lstrip_def rstrip_def isspace_def

theorem C5_decode_blocks_witness:
  "(\<exists>received raw.
      extract_text_blocks html_text wordchar_ascii
           (lit ''x '' @ H_DECODE @ (NL @ lit ''dec one'' @ NL) @ H_OPPOSITE
              @ (NL @ lit ''dec two'' @ NL) @ SELECT_VOICE @ lit '' en'')
        = Inr (received, raw, lit ''dec one'', lit ''dec two''))
   \<and> (\<exists>received raw.
      extract_text_blocks html_text wordchar_ascii (lit ''x '' @ H_OPPOSITE @ lit '' tail '')
        = Inr (received, raw, lit ''OPPOSITE DIRECTION tail'', lit ''tail''))
   \<and> (\<exists>received raw.
      extract_text_blocks html_text wordchar_ascii (lit ''No report'')
        = Inr (received, raw, [], []))"
proof -
  let ?m1 = "NL @ lit ''dec one'' @ NL" and ?m2 = "NL @ lit ''dec two'' @ NL"
  let ?t1 = "lit ''x '' @ H_DECODE @ ?m1 @ H_OPPOSITE @ ?m2 @ SELECT_VOICE @ lit '' en''"
  let ?t2 = "lit ''x '' @ H_OPPOSITE @ lit '' tail ''"
  let ?t3 = "lit ''No report''"
  have p1: "html_text ?t1 = Inr ?t1" by (rule html_text_plain) (simp_all add: hval)
  have p2: "html_text ?t2 = Inr ?t2" by (rule html_text_plain) (simp_all add: hval)
  have p3: "html_text ?t3 = Inr ?t3" by (rule html_text_plain) (simp_all add: hval)
  obtain r1 w1 d1 e1 where x1: "extract_text_blocks html_text wordchar_ascii ?t1 = Inr (r1, w1, d1, e1)"
    unfolding extract_text_blocks_def p1 by (simp add: extract_from_text_def)
  obtain r2 w2 d2 e2 where x2: "extract_text_blocks html_text wordchar_ascii ?t2 = Inr (r2, w2, d2, e2)"
    unfolding extract_text_blocks_def p2 by (simp add: extract_from_text_def)
  obtain r3 w3 d3 e3 where x3: "extract_text_blocks html_text wordchar_ascii ?t3 = Inr (r3, w3, d3, e3)"
    unfolding extract_text_blocks_def p3 by (simp add: extract_from_text_def)
  have f1: "first_after (lit ''x '') H_DECODE"
    by (simp add: first_after_def hval sublist_code(3))
  have f2: "first_after ?m1 H_OPPOSITE"
    by (simp add: first_after_def hval sublist_code(3))
  have f3: "first_after (lit ''x '' @ H_DECODE @ ?m1) H_OPPOSITE"
    by (simp add: first_after_def hval sublist_code(3))
  have f4: "first_after ?m2 SELECT_VOICE"
    by (simp add: first_after_def hval sublist_code(3))
  have f5: "first_after (lit ''x '') H_OPPOSITE"
    by (simp add: first_after_def hval sublist_code(3))
  have n1: "\<not> sublist H_OPPOSITE (lit '' OPPOSITE DIRECTION tail '')"
    by (simp add: hval sublist_code(3))
  have n2: "\<not> sublist SELECT_VOICE (lit '' tail '')"
    by (simp add: hval sublist_code(3))
  have n3: "\<not> sublist H_DECODE ?t3" "\<not> sublist H_OPPOSITE ?t3"
    by (simp_all add: hval sublist_code(3))
  have s1: "strip ?m1 = lit ''dec one''" "strip ?m2 = lit ''dec two''"
    "strip (lit '' OPPOSITE DIRECTION tail '') = lit ''OPPOSITE DIRECTION tail''"
    "strip (lit '' tail '') = lit ''tail''"
    by (simp_all add: hval sval)
  have e2: "?t2 = lit ''x '' @ H_DECODE @ lit '' OPPOSITE DIRECTION tail ''"
    by (simp add: hval)
  have a: "d1 = lit ''dec one'' \<and> e1 = lit ''dec two''"
    using C5_decode_blocks [OF p1 x1, where pre = "lit ''x ''" and mid = ?m1
        and post = "?m2 @ SELECT_VOICE @ lit '' en''"
        and ?pre2.0 = "lit ''x '' @ H_DECODE @ ?m1" and ?mid2.0 = ?m2 and ?post2.0 = "lit '' en''"]
      f1 f2 f3 f4 s1
    by simp
  have b: "d2 = lit ''OPPOSITE DIRECTION tail'' \<and> e2 = lit ''tail''"
    using C5_decode_blocks [OF p2 x2, where pre = "lit ''x ''"
        and rest = "lit '' OPPOSITE DIRECTION tail ''"
        and ?pre2.0 = "lit ''x ''" and ?rest2.0 = "lit '' tail ''"]
      f1 f5 n1 n2 s1 e2
    by simp
  have c: "d3 = [] \<and> e3 = []"
    using C5_decode_blocks [OF p3 x3] n3 by simp
  show ?thesis unfolding x1 x2 x3 using a b c by simp
qed

text \<open>
  The claim C5 as it is written asks for non-empty blocks whenever both headings occur.
  A page with nothing but white space between the headings has both headings and two
  empty blocks.
\<close>

theorem C5_nonempty_counterexample:
  "sublist H_DECODE (H_DECODE @ NL @ H_OPPOSITE @ NL @ SELECT_VOICE)
   \<and> sublist H_OPPOSITE (H_DECODE @ NL @ H_OPPOSITE @ NL @ SELECT_VOICE)
   \<and> extract_text_blocks html_text wordchar_ascii
         (H_DECODE @ NL @ H_OPPOSITE @ NL @ SELECT_VOICE)
       = Inr ([], [], [], [])"
proof -
  let ?t = "H_DECODE @ NL @ H_OPPOSITE @ NL @ SELECT_VOICE"
  have p: "html_text ?t = Inr ?t" by (rule html_text_plain) (simp_all add: hval)
  have f1: "first_after [] H_DECODE" "first_after NL H_OPPOSITE"
    "first_after (H_DECODE @ NL) H_OPPOSITE" "first_after NL SELECT_VOICE"
    by (simp_all add: first_after_def hval sublist_code(3))
  have "slice_between ([] @ H_DECODE @ NL @ H_OPPOSITE @ NL @ SELECT_VOICE) H_DECODE H_OPPOSITE
      = strip NL"
    using f1 by (intro slice_between_found) 
  then have d: "slice_between ?t H_DECODE H_OPPOSITE = []"
    by (simp add: NL_def sval)
  have "slice_between ((H_DECODE @ NL) @ H_OPPOSITE @ NL @ SELECT_VOICE @ []) H_OPPOSITE SELECT_VOICE
      = strip NL"
    using f1 by (intro slice_between_found) 
  then have d2: "slice_between ?t H_OPPOSITE SELECT_VOICE = []"
    by (simp add: NL_def sval)
  have s: "sublist H_DECODE ?t" "sublist H_OPPOSITE ?t"
    by (simp_all add: sublist_in_left sublist_in_right)
  have r: "received_search ?t = None"
    by (simp add: hval received_match_def)
  have sl: "splitlines ?t = [H_DECODE, H_OPPOSITE, SELECT_VOICE]"
    by (simp add: splitlines.simps hval islinebreak_def)
  have tl: "text_lines ?t = [H_DECODE, H_OPPOSITE, SELECT_VOICE]"
    unfolding text_lines_def sl by (simp add: hval sval)
  have st: "start_idx wordchar_ascii (text_lines ?t) = None"
    unfolding tl by (simp add: start_idx_def is_start_def hval upt_rec [of 0] upt_rec [of 1] upt_rec [of 2])
  show ?thesis
    using d d2 s r st
    by (simp add: extract_text_blocks_def p extract_from_text_def raw_block_def)
qed

lemma collect_False: "collect False ls = ls"
  by (induction ls) auto

lemma collect_Cons: "\<exists>more. collect b (ln # rest) = ln # more"
  by simp

lemma join_Cons: "join sep (x # xs) = (if xs = [] then x else x @ sep @ join sep xs)"
  by (cases xs) auto

lemma join_hd: "x \<noteq> [] \<Longrightarrow> join sep (x # xs) \<noteq> [] \<and> hd (join sep (x # xs)) = hd x"
  by (simp add: join_Cons)

lemma join_last:
  "xs \<noteq> [] \<Longrightarrow> last xs \<noteq> [] \<Longrightarrow> join sep xs \<noteq> [] \<and> last (join sep xs) = last (last xs)"
proof (induction xs)
  case Nil
  then show ?case by simp
next
  case (Cons x xs)
  show ?case
  proof (cases "xs = []")
    case True
    with Cons.prems show ?thesis by simp
  next
    case False
    with Cons have "join sep xs \<noteq> [] \<and> last (join sep xs) = last (last xs)" by simp
    with False show ?thesis by (simp add: join_Cons)
  qed
qed

lemma sublist_join: "x \<in> set xs \<Longrightarrow> sublist x (join sep xs)"
proof (induction xs)
  case Nil
  then show ?case by simp
next
  case (Cons y ys)
  show ?case
  proof (cases "x = y")
    case True
    then show ?thesis by (simp add: join_Cons)
  next
    case False
    with Cons have "sublist x (join sep ys)" and "ys \<noteq> []" by auto
    then have "sublist x (y @ sep @ join sep ys)"
      by (intro sublist_in_right)
    with \<open>ys \<noteq> []\<close> show ?thesis by (simp add: join_Cons)
  qed
qed

lemma sublist_across:
  assumes "sublist k (a @ c # b)" and "c \<notin> set k"
  shows "sublist k a \<or> sublist k b"
proof -
  from assms(1) consider "sublist k a" | "sublist k (c # b)"
    | k1 k2 where "k = k1 @ k2" "suffix k1 a" "prefix k2 (c # b)"
    unfolding sublist_append by blast
  then show ?thesis
  proof cases
    case 1
    then show ?thesis by simp
  next
    case 2
    then have "prefix k (c # b) \<or> sublist k b" by (simp add: sublist_Cons_right)
    moreover have "prefix k (c # b) \<Longrightarrow> k = []"
      using assms(2) by (cases k) auto
    ultimately show ?thesis by auto
  next
    case 3
    have "k2 = []" using 3(1,3) assms(2) by (cases k2) auto
    with 3 have "suffix k a" by simp
    then show ?thesis by (simp add: suffix_imp_sublist)
  qed
qed

lemma sublist_join_line:
  assumes "sublist k (join [c] xs)" and "c \<notin> set k" and "k \<noteq> []"
  shows "\<exists>x\<in>set xs. sublist k x"
  using assms(1)
proof (induction xs)
  case Nil
  with assms(3) show ?case by simp
next
  case (Cons y ys)
  show ?case
  proof (cases "ys = []")
    case True
    with Cons.prems show ?thesis by simp
  next
    case False
    with Cons.prems have "sublist k (y @ c # join [c] ys)" by (simp add: join_Cons)
    then have "sublist k y \<or> sublist k (join [c] ys)"
      using assms(2) by (rule sublist_across)
    with Cons.IH show ?thesis by auto
  qed
qed

lemma rstrip_props:
  assumes "strip ln \<noteq> []"
  shows "rstrip ln \<noteq> []" and "\<not> isspace (last (rstrip ln))"
proof -
  have "\<not> (\<forall>c\<in>set ln. isspace c)" using assms by (simp add: strip_Nil_iff)
  then have ne: "dropWhile isspace (rev ln) \<noteq> []" by simp
  then show "rstrip ln \<noteq> []" by (simp add: rstrip_def)
  have "last (rstrip ln) = hd (dropWhile isspace (rev ln))"
    using ne by (simp add: rstrip_def last_rev)
  then show "\<not> isspace (last (rstrip ln))" using hd_dropWhile [OF ne] by simp
qed

lemma text_lines_props:
  "ln \<in> set (text_lines text) \<Longrightarrow> ln \<noteq> [] \<and> \<not> isspace (last ln)"
  by (auto simp: text_lines_def rstrip_props)

lemma start_idx_Some:
  assumes "start_idx wordchar lines = Some i"
  shows "i < length lines" and "prefix (lit ''SW'') (lines ! i)"
proof -
  from assms have "i \<in> set [0..<length lines]" and s: "is_start wordchar lines i"
    unfolding start_idx_def by (auto simp: find_Some_iff in_set_conv_nth)
  then show "i < length lines" by simp
  from s show "prefix (lit ''SW'') (lines ! i)" by (auto simp: is_start_def Let_def)
qed

text \<open>
  C9. When the start line is found at index \<open>i\<close> of the non-blank lines and none of the
  120 lines from there on holds \<^verbatim>\<open>UNOFFICIAL PLAIN LANGUAGE DECODE\<close>, the raw block is all
  the lines from the start line to the end of the text, joined by newlines: no line
  ending in a parenthesis ends the collection. The raw block is then non-empty and every
  one of those lines occurs in it.
\<close>

theorem C9_raw_runs_to_end:
  assumes parse: "get_text html = Inr page"
    and start: "start_idx wordchar (text_lines page) = Some i"
    and nodec: "\<forall>ln\<in>set (take 120 (drop i (text_lines page))).
                  \<not> sublist (lit ''UNOFFICIAL PLAIN LANGUAGE DECODE'') ln"
  shows "\<exists>received raw decode decode2.
           extract_text_blocks get_text wordchar html = Inr (received, raw, decode, decode2)
           \<and> raw = join NL (drop i (text_lines page))
           \<and> raw \<noteq> []
           \<and> (\<forall>ln\<in>set (drop i (text_lines page)). sublist ln raw)"
proof -
  let ?lines = "text_lines page"
  let ?tail = "drop i ?lines"
  have i: "i < length ?lines" and sw: "prefix (lit ''SW'') (?lines ! i)"
    using start_idx_Some [OF start] by simp_all
  then obtain rest where tail: "?tail = (?lines ! i) # rest"
    by (metis Cons_nth_drop_Suc)
  have "\<not> sublist (lit ''UNOFFICIAL PLAIN LANGUAGE DECODE'') (join NL (take 120 ?tail))"
  proof
    assume "sublist (lit ''UNOFFICIAL PLAIN LANGUAGE DECODE'') (join NL (take 120 ?tail))"
    then have "\<exists>x\<in>set (take 120 ?tail). sublist (lit ''UNOFFICIAL PLAIN LANGUAGE DECODE'') x"
      unfolding NL_def by (rule sublist_join_line) (simp_all add: lit_def)
    with nodec show False by blast
  qed
  then have raw: "raw_block wordchar page = strip (join NL ?tail)"
    using start by (simp add: raw_block_def collect_False)
  have first: "?lines ! i \<noteq> []" "hd (?lines ! i) = 83"
    using sw by (auto simp: lit_def prefix_def)
  have h: "join NL ?tail \<noteq> []" "hd (join NL ?tail) = 83"
    unfolding tail using join_hd [OF first(1)] first(2) by simp_all
  have "last ?tail \<in> set ?lines"
    using tail by (metis in_set_dropD last_in_set list.discI)
  then have "last ?tail \<noteq> []" "\<not> isspace (last (last ?tail))"
    using text_lines_props by blast+
  then have l: "\<not> isspace (last (join NL ?tail))"
    using join_last [of ?tail NL] tail by simp
  have "\<not> isspace (hd (join NL ?tail))" unfolding h by (simp add: isspace_def)
  then have "strip (join NL ?tail) = join NL ?tail"
    using h(1) l by (intro strip_noop)
  with raw have r: "raw_block wordchar page = join NL ?tail" by simp
  show ?thesis
    using r h(1)
    by (simp add: extract_text_blocks_def parse extract_from_text_def sublist_join)
qed

theorem C9_raw_runs_to_end_witness:
  "\<exists>received decode decode2.
     extract_text_blocks html_text wordchar_ascii
          (lit ''x'' @ NL @ lit ''SWLH0012 LHBP 0109 '' @ NL @ NL @ lit ''(SNOWTAM 0012)'' @ NL @ lit ''end'')
       = Inr (received,
              lit ''SWLH0012 LHBP 0109'' @ NL @ lit ''(SNOWTAM 0012)'' @ NL @ lit ''end'',
              decode, decode2)"
proof -
  let ?t = "lit ''x'' @ NL @ lit ''SWLH0012 LHBP 0109 '' @ NL @ NL @ lit ''(SNOWTAM 0012)'' @ NL @ lit ''end''"
  have p: "html_text ?t = Inr ?t" by (rule html_text_plain) (simp_all add: hval)
  have sl: "splitlines ?t = [lit ''x'', lit ''SWLH0012 LHBP 0109 '', [], lit ''(SNOWTAM 0012)'', lit ''end'']"
    by (simp add: splitlines.simps lit_def NL_def islinebreak_def)
  have tl: "text_lines ?t = [lit ''x'', lit ''SWLH0012 LHBP 0109'', lit ''(SNOWTAM 0012)'', lit ''end'']"
    unfolding text_lines_def sl by (simp add: lit_def sval)
  have n0: "\<not> is_start wordchar_ascii (text_lines ?t) 0"
    unfolding tl by (simp add: is_start_def lit_def)
  have n1: "is_start wordchar_ascii (text_lines ?t) 1"
    unfolding tl by (simp add: is_start_def lit_def sublist_code(3))
  have si: "start_idx wordchar_ascii (text_lines ?t) = Some 1"
    using n0 n1 by (simp add: start_idx_def tl upt_rec [of 0] upt_rec [of 1])
  have nd: "\<forall>ln\<in>set (take 120 (drop 1 (text_lines ?t))).
                  \<not> sublist (lit ''UNOFFICIAL PLAIN LANGUAGE DECODE'') ln"
    unfolding tl by (simp add: lit_def sublist_code(3))
  show ?thesis
    using C9_raw_runs_to_end [where get_text = html_text and wordchar = wordchar_ascii
        and html = ?t and page = ?t and i = 1] p si nd
    unfolding tl
    by (auto simp: NL_def lit_def)
qed

lemma received_search_nonempty: "received_search s = Some g \<Longrightarrow> g \<noteq> []"
proof (induction s)
  case Nil
  then show ?case by simp
next
  case (Cons c cs)
  show ?case
  proof (cases "received_match (c # cs)")
    case None
    with Cons show ?thesis by simp
  next
    case (Some h)
    with Cons.prems have gh: "h = g" by simp
    from Some obtain t r where m: "match_items received_items t = Some (h, r)"
      by (auto simp: received_match_def split: if_splits)
    have "received_items = Digit # tl received_items" by (simp add: received_items_def)
    with m have "h \<noteq> []" by (metis match_items_first_digit)
    with gh show ?thesis by simp
  qed
qed

lemma raw_block_nonempty:
  assumes "start_idx wordchar (text_lines text) = Some i"
  shows "raw_block wordchar text \<noteq> []"
proof -
  let ?lines = "text_lines text"
  have i: "i < length ?lines" and sw: "prefix (lit ''SW'') (?lines ! i)"
    using start_idx_Some [OF assms] by simp_all
  then obtain rest where tail: "drop i ?lines = (?lines ! i) # rest"
    by (metis Cons_nth_drop_Suc)
  obtain more where c: "collect (sublist (lit ''UNOFFICIAL PLAIN LANGUAGE DECODE'')
      (join NL (take 120 (drop i ?lines)))) (drop i ?lines) = (?lines ! i) # more"
    unfolding tail using collect_Cons by blast
  have first: "?lines ! i \<noteq> []" "hd (?lines ! i) = 83"
    using sw by (auto simp: lit_def prefix_def)
  have "join NL ((?lines ! i) # more) \<noteq> []" "hd (join NL ((?lines ! i) # more)) = 83"
    using join_hd [OF first(1)] first(2) by simp_all
  then have "83 \<in> set (join NL ((?lines ! i) # more))" by (metis hd_in_set)
  moreover have "\<not> isspace 83" by (simp add: isspace_def)
  ultimately have "strip (join NL ((?lines ! i) # more)) \<noteq> []"
    unfolding strip_Nil_iff by blast
  then show ?thesis using assms c by (simp add: raw_block_def)
qed

subsection \<open>The search for the timestamp finds exactly the timestamps of the text\<close>

lemma mi_Nil: "match_items [] s = Some (m, r) \<longleftrightarrow> m = [] \<and> r = s"
  by auto

lemma mi_Digit:
  "match_items (Digit # its) s = Some (m, r) \<longleftrightarrow>
     (\<exists>c s' m'. s = c # s' \<and> isdigit09 c \<and> m = c # m' \<and> match_items its s' = Some (m', r))"
  by (cases s) auto

lemma mi_Ch:
  "match_items (Ch k # its) s = Some (m, r) \<longleftrightarrow>
     (\<exists>s' m'. s = k # s' \<and> m = k # m' \<and> match_items its s' = Some (m', r))"
  by (cases s) auto

lemma mi_Spaces:
  "match_items (Spaces # its) s = Some (m, r) \<longleftrightarrow>
     (\<exists>m'. blank1 (takeWhile isspace s) \<and> m = takeWhile isspace s @ m'
        \<and> match_items its (dropWhile isspace s) = Some (m', r))"
  by (auto simp: blank1_def list_all_iff dest: set_takeWhileD)

lemma digits_2: "digits 2 s \<longleftrightarrow> (\<exists>a b. s = [a, b] \<and> isdigit09 a \<and> isdigit09 b)"
  by (auto simp: digits_def length_Suc_conv numeral_2_eq_2)

lemma digits_4:
  "digits 4 s \<longleftrightarrow> (\<exists>a b c d. s = [a, b, c, d] \<and> isdigit09 a \<and> isdigit09 b \<and> isdigit09 c \<and> isdigit09 d)"
  by (auto simp: digits_def length_Suc_conv eval_nat_numeral)

lemma blank_run:
  assumes "blank1 w" "\<not> isspace c"
  shows "takeWhile isspace (w @ c # r) = w" "dropWhile isspace (w @ c # r) = c # r"
  using assms by (simp_all add: blank1_def list_all_iff takeWhile_append2 dropWhile_append2)

lemma digit09_not_space: "isdigit09 c \<Longrightarrow> \<not> isspace c"
  by (auto simp: isdigit09_def isspace_def)

lemma stamp_matches:
  assumes "stamp_shape g"
  shows "match_items received_items (g @ r) = Some (g, r)"
proof -
  from assms obtain y m d w1 hh mm w2 where
    g: "g = y @ [45] @ m @ [45] @ d @ w1 @ hh @ [58] @ mm @ w2 @ lit ''UTC''"
    and f: "digits 4 y" "digits 2 m" "digits 2 d" "blank1 w1" "digits 2 hh" "digits 2 mm" "blank1 w2"
    unfolding stamp_shape_def by blast
  from f obtain y1 y2 y3 y4 m1 m2 d1 d2 h1 h2 n1 n2 where
    e: "y = [y1, y2, y3, y4]" "m = [m1, m2]" "d = [d1, d2]" "hh = [h1, h2]" "mm = [n1, n2]"
    and dg: "isdigit09 y1" "isdigit09 y2" "isdigit09 y3" "isdigit09 y4" "isdigit09 m1" "isdigit09 m2"
      "isdigit09 d1" "isdigit09 d2" "isdigit09 h1" "isdigit09 h2" "isdigit09 n1" "isdigit09 n2"
    unfolding digits_2 digits_4 by blast
  have t1: "takeWhile isspace (w1 @ h1 # x) = w1" "dropWhile isspace (w1 @ h1 # x) = h1 # x" for x
    using blank_run [OF f(4) digit09_not_space [OF dg(9)]] by simp_all
  have "\<not> isspace 85" by (simp add: isspace_def)
  then have t2: "takeWhile isspace (w2 @ 85 # x) = w2" "dropWhile isspace (w2 @ 85 # x) = 85 # x" for x
    using blank_run [OF f(7)] by simp_all
  have ne: "w1 \<noteq> []" "w2 \<noteq> []" using f by (simp_all add: blank1_def)
  show ?thesis
    unfolding g e received_items_def
    using dg ne by (simp add: lit_def t1 t2)
qed

lemma matches_stamp:
  assumes "match_items received_items t = Some (g, r)"
  shows "t = g @ r \<and> stamp_shape g"
proof -
  from assms obtain y1 y2 y3 y4 m1 m2 d1 d2 h1 h2 n1 n2 s1 s2 where
    dg: "isdigit09 y1" "isdigit09 y2" "isdigit09 y3" "isdigit09 y4" "isdigit09 m1" "isdigit09 m2"
      "isdigit09 d1" "isdigit09 d2" "isdigit09 h1" "isdigit09 h2" "isdigit09 n1" "isdigit09 n2"
    and t: "t = [y1, y2, y3, y4, 45, m1, m2, 45, d1, d2] @ s1"
    and b1: "blank1 (takeWhile isspace s1)"
    and s1: "dropWhile isspace s1 = [h1, h2, 58, n1, n2] @ s2"
    and b2: "blank1 (takeWhile isspace s2)"
    and s2: "dropWhile isspace s2 = [85, 84, 67] @ r"
    and g: "g = [y1, y2, y3, y4, 45, m1, m2, 45, d1, d2] @ takeWhile isspace s1
        @ [h1, h2, 58, n1, n2] @ takeWhile isspace s2 @ [85, 84, 67]"
    unfolding received_items_def mi_Digit mi_Ch mi_Spaces mi_Nil
    by (elim exE conjE) simp
  have a: "s1 = takeWhile isspace s1 @ [h1, h2, 58, n1, n2] @ s2"
    using s1 by (metis takeWhile_dropWhile_id)
  have b: "s2 = takeWhile isspace s2 @ [85, 84, 67] @ r"
    using s2 by (metis takeWhile_dropWhile_id)
  have "t = g @ r" unfolding t g using a b by simp
  moreover have "stamp_shape g"
    unfolding stamp_shape_def
  proof (intro exI conjI)
    show "g = [y1, y2, y3, y4] @ [45] @ [m1, m2] @ [45] @ [d1, d2] @ takeWhile isspace s1
        @ [h1, h2] @ [58] @ [n1, n2] @ takeWhile isspace s2 @ lit ''UTC''"
      unfolding g by (simp add: lit_def)
  qed (use dg b1 b2 in \<open>simp_all add: digits_def\<close>)
  ultimately show ?thesis by simp
qed

lemma received_match_iff:
  "received_match s = Some g \<longleftrightarrow>
     (\<exists>ws rest. s = lit ''Received on:'' @ ws @ g @ rest \<and> list_all isspace ws \<and> stamp_shape g)"
proof
  assume a: "received_match s = Some g"
  let ?k = "lit ''Received on:''"
  let ?u = "drop (length ?k) s"
  from a obtain r where p: "prefix ?k s"
    and m: "match_items received_items (dropWhile isspace ?u) = Some (g, r)"
    by (auto simp: received_match_def split: if_splits)
  from p have s: "s = ?k @ ?u" by (metis append_eq_conv_conj prefix_def)
  from matches_stamp [OF m] have d: "dropWhile isspace ?u = g @ r" and sh: "stamp_shape g" by simp_all
  have "?u = takeWhile isspace ?u @ g @ r" using d by (metis takeWhile_dropWhile_id)
  with s have "s = ?k @ takeWhile isspace ?u @ g @ r" by simp
  moreover have "list_all isspace (takeWhile isspace ?u)"
    by (auto simp: list_all_iff dest: set_takeWhileD)
  ultimately show "\<exists>ws rest. s = ?k @ ws @ g @ rest \<and> list_all isspace ws \<and> stamp_shape g"
    using sh by blast
next
  assume "\<exists>ws rest. s = lit ''Received on:'' @ ws @ g @ rest \<and> list_all isspace ws \<and> stamp_shape g"
  then obtain ws rest where s: "s = lit ''Received on:'' @ ws @ g @ rest"
    and ws: "list_all isspace ws" and sh: "stamp_shape g" by blast
  from stamp_matches [OF sh, of "[]"] have "match_items received_items g = Some (g, [])" by simp
  then have "g \<noteq> [] \<and> isdigit09 (hd g)" 
    using match_items_first_digit [of "tl received_items" g g "[]"] by (simp add: received_items_def)
  then obtain c g' where g: "g = c # g'" and c: "\<not> isspace c"
    by (cases g) (auto dest: digit09_not_space)
  have "dropWhile isspace (ws @ g @ rest) = g @ rest"
    using ws c unfolding g by (simp add: list_all_iff dropWhile_append2)
  then show "received_match s = Some g"
    unfolding s by (simp add: received_match_def stamp_matches [OF sh])
qed

lemma received_search_at: "received_search page = Some g \<Longrightarrow> received_at page g"
proof (induction page)
  case Nil
  then show ?case by simp
next
  case (Cons c cs)
  show ?case
  proof (cases "received_match (c # cs)")
    case None
    with Cons have "received_at cs g" by simp
    then obtain pre ws rest where "cs = pre @ lit ''Received on:'' @ ws @ g @ rest"
      "list_all isspace ws" "stamp_shape g" unfolding received_at_def by blast
    then have "c # cs = (c # pre) @ lit ''Received on:'' @ ws @ g @ rest
        \<and> list_all isspace ws \<and> stamp_shape g" by simp
    then show ?thesis unfolding received_at_def by blast
  next
    case (Some h)
    with Cons.prems have "h = g" by simp
    with Some obtain ws rest where "c # cs = [] @ lit ''Received on:'' @ ws @ g @ rest
        \<and> list_all isspace ws \<and> stamp_shape g"
      unfolding received_match_iff by auto
    then show ?thesis unfolding received_at_def by blast
  qed
qed

lemma received_at_search: "received_at page g \<Longrightarrow> \<exists>h. received_search page = Some h"
proof -
  assume "received_at page g"
  then obtain pre ws rest where p: "page = pre @ lit ''Received on:'' @ ws @ g @ rest"
    and ws: "list_all isspace ws" and sh: "stamp_shape g"
    unfolding received_at_def by blast
  have m: "received_match (lit ''Received on:'' @ ws @ g @ rest) = Some g"
    unfolding received_match_iff using ws sh by blast
  have "\<exists>h. received_search (pre @ lit ''Received on:'' @ ws @ g @ rest) = Some h"
  proof (induction pre)
    case Nil
    have "lit ''Received on:'' @ ws @ g @ rest = 82 # tl (lit ''Received on:'') @ ws @ g @ rest"
      by (simp add: lit_def)
    then show ?case using m by (metis append_Nil option.simps(5) received_search.simps(2))
  next
    case (Cons c pre)
    then show ?case by (cases "received_match (c # pre @ lit ''Received on:'' @ ws @ g @ rest)") auto
  qed
  then show ?thesis unfolding p .
qed

lemma received_search_None_iff: "received_search page = None \<longleftrightarrow> \<not> (\<exists>g. received_at page g)"
  using received_search_at received_at_search by (metis option.exhaust option.distinct(1))

lemma start_idx_None_iff:
  "start_idx wordchar lines = None \<longleftrightarrow> (\<forall>i<length lines. \<not> is_start wordchar lines i)"
  by (auto simp: start_idx_def find_None_iff)

lemma rstrip_append:
  assumes "p \<noteq> []" "\<not> isspace (last p)"
  shows "rstrip (p @ q) = p @ rstrip q"
proof -
  have h: "\<not> isspace (hd (rev p))" using assms by (simp add: hd_rev)
  have "dropWhile isspace (rev p) = rev p"
    using assms(1) h by (cases "rev p") auto
  then show ?thesis by (simp add: rstrip_def dropWhile_append)
qed

lemma strip_keeps_prefix:
  assumes "prefix p s" "p \<noteq> []" "\<not> isspace (hd p)" "\<not> isspace (last p)"
  shows "prefix p (strip s)"
proof -
  from assms(1) obtain q where s: "s = p @ q" by (auto simp: prefix_def)
  have "lstrip s = s" using assms(2,3) unfolding s lstrip_def by (cases p) auto
  then have "strip s = p @ rstrip q"
    unfolding strip_def s using rstrip_append [OF assms(2,4)] by simp
  then show ?thesis by simp
qed

lemma raw_block_SW:
  assumes "start_idx wordchar (text_lines page) = Some i"
  shows "prefix (lit ''SW'') (raw_block wordchar page)"
proof -
  let ?lines = "text_lines page"
  have i: "i < length ?lines" and sw: "prefix (lit ''SW'') (?lines ! i)"
    using start_idx_Some [OF assms] by simp_all
  then obtain rest where tail: "drop i ?lines = (?lines ! i) # rest"
    by (metis Cons_nth_drop_Suc)
  obtain more where c: "collect (sublist (lit ''UNOFFICIAL PLAIN LANGUAGE DECODE'')
      (join NL (take 120 (drop i ?lines)))) (drop i ?lines) = (?lines ! i) # more"
    unfolding tail using collect_Cons by blast
  have "prefix (?lines ! i) (join NL ((?lines ! i) # more))"
    by (simp add: join_Cons)
  with sw have "prefix (lit ''SW'') (join NL ((?lines ! i) # more))"
    by (rule prefix_order.trans)
  then have "prefix (lit ''SW'') (strip (join NL ((?lines ! i) # more)))"
    by (rule strip_keeps_prefix) (simp_all add: lit_def isspace_def)
  then show ?thesis using assms c by (simp add: raw_block_def)
qed

text \<open>
  C7, as amended. When the HTML parser raises on the page, the extractor raises the same
  exception. For every page that the parser accepts, the extractor returns four
  strings, each equal to its own trimmed form. The timestamp is the empty string
  exactly when no timestamp stands after a \<^verbatim>\<open>Received on:\<close> in the text, and is such a
  timestamp otherwise; the raw block is the empty string exactly when no non-blank
  line passes the start test, and starts with \<^verbatim>\<open>SW\<close> otherwise; a decode block whose
  heading is missing is the empty string.
\<close>

theorem C7_extract_total_trimmed:
  "case get_text html of
     Inl e \<Rightarrow> extract_text_blocks get_text wordchar html = Inl e
   | Inr page \<Rightarrow>
       (\<exists>received raw decode decode2.
          extract_text_blocks get_text wordchar html = Inr (received, raw, decode, decode2)
          \<and> strip received = received \<and> strip raw = raw
          \<and> strip decode = decode \<and> strip decode2 = decode2
          \<and> (received = [] \<longleftrightarrow> \<not> (\<exists>g. received_at page g))
          \<and> (received \<noteq> [] \<longrightarrow> received_at page received)
          \<and> (raw = [] \<longleftrightarrow>
                (\<forall>i<length (text_lines page). \<not> is_start wordchar (text_lines page) i))
          \<and> (raw \<noteq> [] \<longrightarrow> prefix (lit ''SW'') raw)
          \<and> (\<not> sublist H_DECODE page \<longrightarrow> decode = [])
          \<and> (\<not> sublist H_OPPOSITE page \<longrightarrow> decode2 = []))"
proof (cases "get_text html")
  case (Inl e)
  then show ?thesis by (simp add: extract_text_blocks_def)
next
  case (Inr page)
  define received where "received = (case received_search page of None \<Rightarrow> [] | Some g \<Rightarrow> g)"
  have x: "extract_text_blocks get_text wordchar html
      = Inr (received, raw_block wordchar page, slice_between page H_DECODE H_OPPOSITE,
             slice_between page H_OPPOSITE SELECT_VOICE)"
    by (simp add: Inr extract_text_blocks_def extract_from_text_def received_def)
  have r: "strip received = received"
    unfolding received_def by (auto split: option.splits dest: received_search_trimmed)
  have r0: "received = [] \<longleftrightarrow> \<not> (\<exists>g. received_at page g)"
    unfolding received_def received_search_None_iff [symmetric]
    by (auto split: option.splits dest: received_search_nonempty)
  have r1: "received \<noteq> [] \<longrightarrow> received_at page received"
    unfolding received_def by (auto split: option.splits dest: received_search_at)
  have n: "raw_block wordchar page = [] \<longleftrightarrow>
      (\<forall>i<length (text_lines page). \<not> is_start wordchar (text_lines page) i)"
  proof (cases "start_idx wordchar (text_lines page)")
    case None
    then show ?thesis using start_idx_None_iff [of wordchar "text_lines page"]
      by (simp add: raw_block_def)
  next
    case (Some i)
    then show ?thesis
      using raw_block_nonempty [OF Some] start_idx_None_iff [of wordchar "text_lines page"]
      by simp
  qed
  have n1: "raw_block wordchar page \<noteq> [] \<longrightarrow> prefix (lit ''SW'') (raw_block wordchar page)"
  proof (cases "start_idx wordchar (text_lines page)")
    case None
    then show ?thesis by (simp add: raw_block_def)
  next
    case (Some i)
    then show ?thesis using raw_block_SW by blast
  qed
  have d: "\<not> sublist H_DECODE page \<longrightarrow> slice_between page H_DECODE H_OPPOSITE = []"
    "\<not> sublist H_OPPOSITE page \<longrightarrow> slice_between page H_OPPOSITE SELECT_VOICE = []"
    by (simp_all add: slice_between_missing)
  have "\<exists>received raw decode decode2.
          extract_text_blocks get_text wordchar html = Inr (received, raw, decode, decode2)
          \<and> strip received = received \<and> strip raw = raw
          \<and> strip decode = decode \<and> strip decode2 = decode2
          \<and> (received = [] \<longleftrightarrow> \<not> (\<exists>g. received_at page g))
          \<and> (received \<noteq> [] \<longrightarrow> received_at page received)
          \<and> (raw = [] \<longleftrightarrow>
                (\<forall>i<length (text_lines page). \<not> is_start wordchar (text_lines page) i))
          \<and> (raw \<noteq> [] \<longrightarrow> prefix (lit ''SW'') raw)
          \<and> (\<not> sublist H_DECODE page \<longrightarrow> decode = [])
          \<and> (\<not> sublist H_OPPOSITE page \<longrightarrow> decode2 = [])"
    using x r r0 r1 n n1 d raw_block_trimmed [of wordchar page]
      slice_between_trimmed [of page H_DECODE H_OPPOSITE]
      slice_between_trimmed [of page H_OPPOSITE SELECT_VOICE]
    by blast
  then show ?thesis by (simp add: Inr)
qed

theorem C7_extract_total_trimmed_witness:
  "extract_text_blocks html_text wordchar_ascii
     (lit ''Received on: 2026-03-09 06:32 UTC'' @ NL @ lit ''SWLH0012 LHBP 03090632 '' @ NL
        @ lit ''(SNOWTAM 0012)'' @ NL @ H_DECODE @ lit '' one '' @ H_OPPOSITE @ lit '' two '')
     = Inr (lit ''2026-03-09 06:32 UTC'',
            lit ''SWLH0012 LHBP 03090632'' @ NL @ lit ''(SNOWTAM 0012)'',
            lit ''one'', lit ''two'')
   \<and> received_at
       (lit ''Received on: 2026-03-09 06:32 UTC'' @ NL @ lit ''SWLH0012 LHBP 03090632 '' @ NL
          @ lit ''(SNOWTAM 0012)'' @ NL @ H_DECODE @ lit '' one '' @ H_OPPOSITE @ lit '' two '')
       (lit ''2026-03-09 06:32 UTC'')"
proof -
  let ?t = "lit ''Received on: 2026-03-09 06:32 UTC'' @ NL @ lit ''SWLH0012 LHBP 03090632 '' @ NL
        @ lit ''(SNOWTAM 0012)'' @ NL @ H_DECODE @ lit '' one '' @ H_OPPOSITE @ lit '' two ''"
  have p: "html_text ?t = Inr ?t" by (rule html_text_plain) (simp_all add: hval)
  have rs: "received_search ?t = Some (lit ''2026-03-09 06:32 UTC'')"
    by (simp add: hval received_match_def received_items_def isspace_def isdigit09_def)
  have sl: "splitlines ?t = [lit ''Received on: 2026-03-09 06:32 UTC'', lit ''SWLH0012 LHBP 03090632 '',
      lit ''(SNOWTAM 0012)'', H_DECODE @ lit '' one '' @ H_OPPOSITE @ lit '' two '']"
    by (simp add: splitlines.simps hval islinebreak_def)
  have tl: "text_lines ?t = [lit ''Received on: 2026-03-09 06:32 UTC'', lit ''SWLH0012 LHBP 03090632'',
      lit ''(SNOWTAM 0012)'', H_DECODE @ lit '' one '' @ H_OPPOSITE @ lit '' two'']"
    unfolding text_lines_def sl by (simp add: hval sval)
  have n0: "\<not> is_start wordchar_ascii (text_lines ?t) 0"
    unfolding tl by (simp add: is_start_def lit_def)
  have n1: "is_start wordchar_ascii (text_lines ?t) 1"
    unfolding tl by (simp add: is_start_def hval sublist_code(3))
  have si: "start_idx wordchar_ascii (text_lines ?t) = Some (Suc 0)"
    using n0 n1 by (simp add: start_idx_def tl upt_rec [of 0] upt_rec [of 1])
  have hd: "sublist (lit ''UNOFFICIAL PLAIN LANGUAGE DECODE'') (join NL (take 120 (drop (Suc 0) (text_lines ?t))))"
    unfolding tl by (simp add: hval sublist_code(3))
  have co: "collect True (drop (Suc 0) (text_lines ?t))
      = [lit ''SWLH0012 LHBP 03090632'', lit ''(SNOWTAM 0012)'']"
    unfolding tl by (simp add: hval sval suffix_to_prefix)
  have rb: "raw_block wordchar_ascii ?t = lit ''SWLH0012 LHBP 03090632'' @ NL @ lit ''(SNOWTAM 0012)''"
    unfolding raw_block_def Let_def si
    by (simp only: option.case hd [THEN eqTrueI] co) (simp add: hval sval)
  have f: "first_after (lit ''Received on: 2026-03-09 06:32 UTC'' @ NL @ lit ''SWLH0012 LHBP 03090632 '' @ NL
        @ lit ''(SNOWTAM 0012)'' @ NL) H_DECODE" "first_after (lit '' one '') H_OPPOSITE"
    "first_after (lit ''Received on: 2026-03-09 06:32 UTC'' @ NL @ lit ''SWLH0012 LHBP 03090632 '' @ NL
        @ lit ''(SNOWTAM 0012)'' @ NL @ H_DECODE @ lit '' one '') H_OPPOSITE"
    "\<not> sublist SELECT_VOICE (lit '' two '')"
    by (simp_all add: first_after_def hval sublist_code(3))
  have d1: "slice_between ?t H_DECODE H_OPPOSITE = lit ''one''"
    using slice_between_found [OF f(1,2), of "lit '' two ''"] by (simp add: hval sval)
  have d2: "slice_between ?t H_OPPOSITE SELECT_VOICE = lit ''two''"
    using slice_between_to_end [OF f(3,4)] by (simp add: hval sval)
  have x: "extract_text_blocks html_text wordchar_ascii ?t
     = Inr (lit ''2026-03-09 06:32 UTC'',
            lit ''SWLH0012 LHBP 03090632'' @ NL @ lit ''(SNOWTAM 0012)'', lit ''one'', lit ''two'')"
    by (simp add: extract_text_blocks_def p extract_from_text_def rs rb d1 d2)
  have ne: "lit ''2026-03-09 06:32 UTC'' \<noteq> []" by (simp add: lit_def)
  have "received_at ?t (lit ''2026-03-09 06:32 UTC'')"
    using C7_extract_total_trimmed [where get_text = html_text and wordchar = wordchar_ascii
        and html = ?t] ne
    unfolding p x by simp
  with x show ?thesis by simp
qed

text \<open>
  The claim C7 as it is written says that the extractor raises on no page. On the page
  \<^verbatim>\<open><![x]\<close> the parser refuses the marked section, the constructor of the soup raises, and
  so does the extractor.
\<close>

theorem C7_parser_raises_counterexample:
  "extract_text_blocks html_text wordchar_ascii (lit ''<![x]'') = Inl ParserRejectedMarkup"
  by (simp add: extract_text_blocks_def html_text_def marked_section_rejected_def lit_def
      ascii_letter_def declname_char_def lower_ascii_def marked_section_keywords_def isspace_def)

section \<open>Properties of the timestamp helper\<close>










































section \<open>Properties of the fingerprint helper\<close>

lemma length_state_bytes: "length (state_bytes st) = 32"
  by (cases st rule: state_bytes.cases) (simp add: word_bytes_def)

lemma length_sha256: "length (sha256 m) = 32"
  by (simp add: sha256_def length_state_bytes)

lemma length_hexdigest: "length (hexdigest bs) = 2 * length bs"
  by (induction bs) (simp_all add: hexdigest_def hex_byte_def)

lemma hexdigit_hex: "k < 16 \<Longrightarrow> hexdigit k \<in> set (lit ''0123456789abcdef'')"
proof -
  assume "k < 16"
  then have "k \<in> {0, 1, 2, 3, 4, 5, 6, 7, 8, 9, 10, 11, 12, 13, 14, 15}" by simp arith
  then show ?thesis by (auto simp: hexdigit_def lit_def)
qed

lemma hex_byte_hex: "set (hex_byte b) \<subseteq> set (lit ''0123456789abcdef'')"
proof -
  have "unat b < 256" using unsigned_less [of b, where ?'a = nat] by simp
  then have "unat b div 16 < 16" "unat b mod 16 < 16" by simp_all
  then show ?thesis by (simp add: hex_byte_def hexdigit_hex)
qed

lemma hexdigest_hex: "set (hexdigest bs) \<subseteq> set (lit ''0123456789abcdef'')"
  using hex_byte_hex by (auto simp: hexdigest_def)

text \<open>
  C10. For every list of strings, of any length, the helper returns exactly 16 code
  points, each a lower-case hexadecimal digit.
\<close>

theorem C10_stable_hash_16_hex:
  "length (stable_hash parts) = 16
   \<and> set (stable_hash parts) \<subseteq> set (lit ''0123456789abcdef'')"
proof -
  have "length (hexdigest (sha256 (hash_input parts))) = 64"
    by (simp add: length_hexdigest length_sha256)
  then have "length (stable_hash parts) = 16" by (simp add: stable_hash_def)
  moreover have "set (stable_hash parts) \<subseteq> set (hexdigest (sha256 (hash_input parts)))"
    unfolding stable_hash_def by (rule set_take_subset)
  ultimately show ?thesis using hexdigest_hex by blast
qed

theorem C10_stable_hash_16_hex_witness:
  "length (stable_hash []) = 16 \<and> length (stable_hash [[], lit ''SWLH0012'', [55296]]) = 16
   \<and> set (stable_hash [[], lit ''SWLH0012'', [55296]]) \<subseteq> set (lit ''0123456789abcdef'')"
  using C10_stable_hash_16_hex [of "[]"] C10_stable_hash_16_hex [of "[[], lit ''SWLH0012'', [55296]]"]
  by simp

lemma split64: "(c::nat) div 64 * 64 + c mod 64 = c"
  by simp

lemma split4096: "(c::nat) div 4096 * 4096 + c div 64 mod 64 * 64 + c mod 64 = c"
proof -
  have "c div 64 = c div 64 div 64 * 64 + c div 64 mod 64" by simp
  moreover have "c div 64 div 64 = c div 4096" by (simp add: div_mult2_eq)
  moreover have "c = c div 64 * 64 + c mod 64" by simp
  ultimately show ?thesis by linarith
qed

lemma split262144:
  "(c::nat) div 262144 * 262144 + c div 4096 mod 64 * 4096 + c div 64 mod 64 * 64 + c mod 64 = c"
proof -
  have "c div 4096 = c div 4096 div 64 * 64 + c div 4096 mod 64" by simp
  moreover have "c div 4096 div 64 = c div 262144" by (simp add: div_mult2_eq)
  moreover have "c = c div 4096 * 4096 + c div 64 mod 64 * 64 + c mod 64"
    using split4096 [of c] by simp
  ultimately show ?thesis by linarith
qed

lemma div_bounds:
  fixes c :: nat
  shows "c < 0x800 \<Longrightarrow> c div 64 \<le> 31"
    and "c < 0x10000 \<Longrightarrow> c div 4096 \<le> 15"
    and "c < 0x110000 \<Longrightarrow> c div 262144 \<le> 4"
proof -
  show "c < 0x800 \<Longrightarrow> c div 64 \<le> 31"
    using div_le_mono [of c 2047 64] by simp
  show "c < 0x10000 \<Longrightarrow> c div 4096 \<le> 15"
    using div_le_mono [of c 65535 4096] by simp
  show "c < 0x110000 \<Longrightarrow> c div 262144 \<le> 4"
    using div_le_mono [of c 1114111 262144] by simp
qed

lemma div_lower:
  fixes c :: nat
  shows "0x80 \<le> c \<Longrightarrow> 2 \<le> c div 64"
    and "0x800 \<le> c \<Longrightarrow> 32 \<le> c div 64"
    and "0x10000 \<le> c \<Longrightarrow> 16 \<le> c div 4096"
proof -
  show "0x80 \<le> c \<Longrightarrow> 2 \<le> c div 64"
    using div_le_mono [of 128 c 64] by simp
  show "0x800 \<le> c \<Longrightarrow> 32 \<le> c div 64"
    using div_le_mono [of 2048 c 64] by simp
  show "0x10000 \<le> c \<Longrightarrow> 16 \<le> c div 4096"
    using div_le_mono [of 65536 c 4096] by simp
qed

lemma utf8_first_1: "b0 < 0x80 \<Longrightarrow> utf8_first (b0 # r) = Some (b0, r)"
  by (simp add: utf8_first_def)

lemma utf8_first_2:
  "0x80 \<le> b0 \<Longrightarrow> b0 < 0xE0 \<Longrightarrow>
     utf8_first (b0 # b1 # r) = Some ((b0 - 0xC0) * 64 + (b1 - 0x80), r)"
  by (simp add: utf8_first_def)

lemma utf8_first_3:
  "0xE0 \<le> b0 \<Longrightarrow> b0 < 0xF0 \<Longrightarrow>
     utf8_first (b0 # b1 # b2 # r)
       = Some ((b0 - 0xE0) * 4096 + (b1 - 0x80) * 64 + (b2 - 0x80), r)"
  by (simp add: utf8_first_def)

lemma utf8_first_4:
  "0xF0 \<le> b0 \<Longrightarrow>
     utf8_first (b0 # b1 # b2 # b3 # r)
       = Some ((b0 - 0xF0) * 262144 + (b1 - 0x80) * 4096 + (b2 - 0x80) * 64 + (b3 - 0x80), r)"
  by (simp add: utf8_first_def)

lemma utf8_first_bytes:
  assumes "c < 0x110000" and "\<not> (0xD800 \<le> c \<and> c \<le> 0xDFFF)"
  shows "utf8_first (utf8_bytes c @ r) = Some (c, r)"
proof -
  consider "c < 0x80" | "0x80 \<le> c" "c < 0x800" | "0x800 \<le> c" "c < 0x10000"
    | "0x10000 \<le> c" using assms by linarith
  then show ?thesis
  proof cases
    case 1
    then have "utf8_bytes c = [c]" by (simp add: utf8_bytes_def)
    with 1 show ?thesis by (simp add: utf8_first_1)
  next
    case 2
    then have e: "utf8_bytes c = [0xC0 + c div 64, 0x80 + c mod 64]"
      by (simp add: utf8_bytes_def)
    have "c div 64 \<le> 31" using 2 by (simp add: div_bounds)
    then have "0x80 \<le> 0xC0 + c div 64" "0xC0 + c div 64 < 0xE0" by linarith+
    then have "utf8_first ((0xC0 + c div 64) # (0x80 + c mod 64) # r)
        = Some ((0xC0 + c div 64 - 0xC0) * 64 + (0x80 + c mod 64 - 0x80), r)"
      by (rule utf8_first_2)
    moreover have "(0xC0 + c div 64 - 0xC0) * 64 + (0x80 + c mod 64 - 0x80) = c"
      using split64 [of c] by simp
    ultimately show ?thesis unfolding e by simp
  next
    case 3
    with assms have e: "utf8_bytes c
        = [0xE0 + c div 4096, 0x80 + c div 64 mod 64, 0x80 + c mod 64]"
      by (simp add: utf8_bytes_def)
    have "c div 4096 \<le> 15" using 3 by (simp add: div_bounds)
    then have "0xE0 \<le> 0xE0 + c div 4096" "0xE0 + c div 4096 < 0xF0" by linarith+
    then have "utf8_first ((0xE0 + c div 4096) # (0x80 + c div 64 mod 64) # (0x80 + c mod 64) # r)
        = Some ((0xE0 + c div 4096 - 0xE0) * 4096 + (0x80 + c div 64 mod 64 - 0x80) * 64
                + (0x80 + c mod 64 - 0x80), r)"
      by (rule utf8_first_3)
    moreover have "(0xE0 + c div 4096 - 0xE0) * 4096 + (0x80 + c div 64 mod 64 - 0x80) * 64
                + (0x80 + c mod 64 - 0x80) = c"
      using split4096 [of c] by simp
    ultimately show ?thesis unfolding e by simp
  next
    case 4
    with assms have e: "utf8_bytes c
        = [0xF0 + c div 262144, 0x80 + c div 4096 mod 64, 0x80 + c div 64 mod 64,
           0x80 + c mod 64]"
      by (simp add: utf8_bytes_def)
    have "0xF0 \<le> 0xF0 + c div 262144" by simp
    then have "utf8_first ((0xF0 + c div 262144) # (0x80 + c div 4096 mod 64)
          # (0x80 + c div 64 mod 64) # (0x80 + c mod 64) # r)
        = Some ((0xF0 + c div 262144 - 0xF0) * 262144 + (0x80 + c div 4096 mod 64 - 0x80) * 4096
                + (0x80 + c div 64 mod 64 - 0x80) * 64 + (0x80 + c mod 64 - 0x80), r)"
      by (rule utf8_first_4)
    moreover have "(0xF0 + c div 262144 - 0xF0) * 262144
                + (0x80 + c div 4096 mod 64 - 0x80) * 4096
                + (0x80 + c div 64 mod 64 - 0x80) * 64 + (0x80 + c mod 64 - 0x80) = c"
      using split262144 [of c] by simp
    ultimately show ?thesis unfolding e by simp
  qed
qed

lemma utf8_bytes_inj:
  assumes "encodable a" "encodable b"
    and "concat (map utf8_bytes a) = concat (map utf8_bytes b)"
  shows "a = b"
  using assms
proof (induction a arbitrary: b)
  case Nil
  show ?case
  proof (cases b)
    case Nil
    then show ?thesis by simp
  next
    case (Cons y b')
    have "y < 0x110000" "\<not> (0xD800 \<le> y \<and> y \<le> 0xDFFF)"
      using Nil.prems(2) unfolding Cons by (simp_all add: encodable_def)
    then have "utf8_first (utf8_bytes y @ concat (map utf8_bytes b')) = Some (y, concat (map utf8_bytes b'))"
      by (rule utf8_first_bytes)
    moreover have "utf8_bytes y @ concat (map utf8_bytes b') = []"
      using Nil.prems(3) unfolding Cons by simp
    ultimately have "utf8_first [] = Some (y, concat (map utf8_bytes b'))" by (simp only:)
    then show ?thesis by (simp add: utf8_first_def)
  qed
next
  case (Cons x a')
  have "x < 0x110000" "\<not> (0xD800 \<le> x \<and> x \<le> 0xDFFF)"
    using Cons.prems(1) by (simp_all add: encodable_def)
  then have fx: "utf8_first (utf8_bytes x @ concat (map utf8_bytes a')) = Some (x, concat (map utf8_bytes a'))"
    by (rule utf8_first_bytes)
  show ?case
  proof (cases b)
    case Nil
    have "utf8_bytes x @ concat (map utf8_bytes a') = []"
      using Cons.prems(3) unfolding Nil by simp
    with fx have "utf8_first [] = Some (x, concat (map utf8_bytes a'))" by (simp only:)
    then show ?thesis by (simp add: utf8_first_def)
  next
    case (Cons y b')
    have "y < 0x110000" "\<not> (0xD800 \<le> y \<and> y \<le> 0xDFFF)"
      using Cons.prems(2) unfolding Cons by (simp_all add: encodable_def)
    then have fy: "utf8_first (utf8_bytes y @ concat (map utf8_bytes b')) = Some (y, concat (map utf8_bytes b'))"
      by (rule utf8_first_bytes)
    have eq: "utf8_bytes x @ concat (map utf8_bytes a') = utf8_bytes y @ concat (map utf8_bytes b')"
      using Cons.prems(3) unfolding Cons by simp
    have "Some (x, concat (map utf8_bytes a')) = Some (y, concat (map utf8_bytes b'))"
      using fx fy unfolding eq by (rule trans [OF sym])
    then have xy: "x = y" and r: "concat (map utf8_bytes a') = concat (map utf8_bytes b')"
      by simp_all
    have "encodable a'" "encodable b'"
      using Cons.prems(1,2) unfolding Cons by (simp_all add: encodable_def)
    then have "a' = b'" using r by (rule Cons.IH)
    with xy show ?thesis unfolding Cons by simp
  qed
qed

lemma utf8_bytes_small: "k \<in> set (utf8_bytes c) \<Longrightarrow> k < 256"
proof -
  assume a: "k \<in> set (utf8_bytes c)"
  have m: "0x80 + n mod 64 < 256" for n :: nat
    using mod_less_divisor [of 64 n] by linarith
  consider "c < 0x80" | "0x80 \<le> c" "c < 0x800"
    | "0x800 \<le> c" "c < 0x10000" "\<not> (0xD800 \<le> c \<and> c \<le> 0xDFFF)"
    | "0xD800 \<le> c \<and> c \<le> 0xDFFF"
    | "0x10000 \<le> c" "c < 0x110000" | "0x110000 \<le> c" by linarith
  then show ?thesis
  proof cases
    case 1
    then have "utf8_bytes c = [c]" by (simp add: utf8_bytes_def)
    with a 1 show ?thesis by simp
  next
    case 2
    then have e: "utf8_bytes c = [0xC0 + c div 64, 0x80 + c mod 64]"
      by (simp add: utf8_bytes_def)
    have "c div 64 \<le> 31" using 2 by (simp add: div_bounds)
    then have "0xC0 + c div 64 < 256" by linarith
    with a m [of c] show ?thesis unfolding e by auto
  next
    case 3
    then have e: "utf8_bytes c
        = [0xE0 + c div 4096, 0x80 + c div 64 mod 64, 0x80 + c mod 64]"
      by (simp add: utf8_bytes_def)
    have "c div 4096 \<le> 15" using 3 by (simp add: div_bounds)
    then have "0xE0 + c div 4096 < 256" by linarith
    with a m [of c] m [of "c div 64"] show ?thesis unfolding e by auto
  next
    case 4
    then have "utf8_bytes c = []" by (simp add: utf8_bytes_def)
    with a show ?thesis by simp
  next
    case 5
    then have e: "utf8_bytes c
        = [0xF0 + c div 262144, 0x80 + c div 4096 mod 64, 0x80 + c div 64 mod 64,
           0x80 + c mod 64]"
      by (simp add: utf8_bytes_def)
    have "c div 262144 \<le> 4" using 5 by (simp add: div_bounds)
    then have "0xF0 + c div 262144 < 256" by linarith
    with a m [of c] m [of "c div 64"] m [of "c div 4096"] show ?thesis unfolding e by auto
  next
    case 6
    then have "utf8_bytes c = []" by (simp add: utf8_bytes_def)
    with a show ?thesis by simp
  qed
qed

lemma unat_utf8_encode: "map unat (utf8_encode s) = concat (map utf8_bytes s)"
proof -
  have "\<forall>k\<in>set (concat (map utf8_bytes s)). k < 256"
    using utf8_bytes_small by auto
  then have "map (\<lambda>k. unat (of_nat k :: 8 word)) (concat (map utf8_bytes s))
      = concat (map utf8_bytes s)"
    by (intro map_idI) (auto simp: unat_of_nat)
  then show ?thesis by (simp add: utf8_encode_def comp_def)
qed

lemma utf8_encode_inj:
  assumes "encodable a" "encodable b" "utf8_encode a = utf8_encode b"
  shows "a = b"
proof -
  have "map unat (utf8_encode a) = map unat (utf8_encode b)"
    using assms(3) by simp
  then have "concat (map utf8_bytes a) = concat (map utf8_bytes b)"
    by (simp only: unat_utf8_encode)
  with assms(1,2) show ?thesis by (rule utf8_bytes_inj)
qed

lemma hash_input3:
  "hash_input [a, b, c] = utf8_encode a @ SEP @ utf8_encode b @ SEP @ utf8_encode c @ SEP"
  by (simp add: hash_input_def)

lemma hash_input_first:
  assumes "encodable a" "encodable a'" "a \<noteq> a'"
  shows "hash_input [a', b, c] \<noteq> hash_input [a, b, c]"
proof
  assume "hash_input [a', b, c] = hash_input [a, b, c]"
  then have "utf8_encode a' = utf8_encode a" by (simp add: hash_input3)
  with assms show False using utf8_encode_inj by blast
qed

lemma hash_input_second:
  assumes "encodable b" "encodable b'" "b \<noteq> b'"
  shows "hash_input [a, b', c] \<noteq> hash_input [a, b, c]"
proof
  assume "hash_input [a, b', c] = hash_input [a, b, c]"
  then have "utf8_encode b' = utf8_encode b" by (simp add: hash_input3)
  with assms show False using utf8_encode_inj by blast
qed

lemma hash_input_third:
  assumes "encodable c" "encodable c'" "c \<noteq> c'"
  shows "hash_input [a, b, c'] \<noteq> hash_input [a, b, c]"
proof
  assume "hash_input [a, b, c'] = hash_input [a, b, c]"
  then have "utf8_encode c' = utf8_encode c" by (simp add: hash_input3)
  with assms show False using utf8_encode_inj by blast
qed

text \<open>
  The fingerprint has 64 bits, so it cannot tell all texts apart: among the raw blocks
  \<^verbatim>\<open>a\<close>, \<^verbatim>\<open>aa\<close>, \<^verbatim>\<open>aaa\<close>, ... two different ones have the same fingerprint.
\<close>

lemma fingerprint_collision:
  "\<exists>m n. m \<noteq> n \<and> record_hash (replicate m 97) [] [] = record_hash (replicate n 97) [] []"
proof -
  let ?f = "\<lambda>n::nat. record_hash (replicate n 97) [] []"
  let ?H = "set (lit ''0123456789abcdef'')"
  have "range ?f \<subseteq> {xs. set xs \<subseteq> ?H \<and> length xs = 16}"
  proof
    fix x assume "x \<in> range ?f"
    then obtain n where x: "x = ?f n" by blast
    have "length (?f n) = 16 \<and> set (?f n) \<subseteq> ?H"
      unfolding record_hash_def stable_hash_def
      using hexdigest_hex by (auto simp: length_hexdigest length_sha256 dest: in_set_takeD)
    with x show "x \<in> {xs. set xs \<subseteq> ?H \<and> length xs = 16}" by simp
  qed
  moreover have "finite {xs. set xs \<subseteq> ?H \<and> length xs = 16}"
    by (rule finite_lists_length_eq) simp
  ultimately have "finite (range ?f)" by (rule finite_subset)
  then have "\<not> inj ?f" using finite_imageD by fastforce
  then show ?thesis unfolding inj_on_def by blast
qed

text \<open>
  C8, as amended. The fingerprint of a record is the first 16 hexadecimal digits of the
  SHA-256 of one byte string: the UTF-8 bytes of the trimmed raw block, of the trimmed
  decode block and of the trimmed opposite-direction block, in this order, each
  followed by the separator. It depends on the blocks through their trimmed forms
  only, so equal trimmed blocks give equal fingerprints. Changing the trimmed content
  of one block, the other two kept, changes the byte string that is hashed, as long as
  the old and the new content hold no code point that UTF-8 cannot encode.
\<close>

theorem C8_fingerprint_of_trimmed_blocks:
  "record_hash raw dec dec2
     = take 16 (hexdigest (sha256 (utf8_encode (strip raw) @ SEP @ utf8_encode (strip dec) @ SEP
                                    @ utf8_encode (strip dec2) @ SEP)))
   \<and> (strip raw' = strip raw \<and> strip dec' = strip dec \<and> strip dec2' = strip dec2
        \<longrightarrow> record_hash raw' dec' dec2' = record_hash raw dec dec2)
   \<and> (encodable (strip raw) \<and> encodable (strip raw') \<and> strip raw' \<noteq> strip raw
        \<longrightarrow> hash_input [strip raw', strip dec, strip dec2]
              \<noteq> hash_input [strip raw, strip dec, strip dec2])
   \<and> (encodable (strip dec) \<and> encodable (strip dec') \<and> strip dec' \<noteq> strip dec
        \<longrightarrow> hash_input [strip raw, strip dec', strip dec2]
              \<noteq> hash_input [strip raw, strip dec, strip dec2])
   \<and> (encodable (strip dec2) \<and> encodable (strip dec2') \<and> strip dec2' \<noteq> strip dec2
        \<longrightarrow> hash_input [strip raw, strip dec, strip dec2']
              \<noteq> hash_input [strip raw, strip dec, strip dec2])"
proof (intro conjI impI)
  show "record_hash raw dec dec2
     = take 16 (hexdigest (sha256 (utf8_encode (strip raw) @ SEP @ utf8_encode (strip dec) @ SEP
                                    @ utf8_encode (strip dec2) @ SEP)))"
    by (simp add: record_hash_def stable_hash_def hash_input3)
next
  assume "strip raw' = strip raw \<and> strip dec' = strip dec \<and> strip dec2' = strip dec2"
  then show "record_hash raw' dec' dec2' = record_hash raw dec dec2"
    by (simp add: record_hash_def)
next
  assume "encodable (strip raw) \<and> encodable (strip raw') \<and> strip raw' \<noteq> strip raw"
  then show "hash_input [strip raw', strip dec, strip dec2]
      \<noteq> hash_input [strip raw, strip dec, strip dec2]"
    using hash_input_first [of "strip raw" "strip raw'"] by auto
next
  assume "encodable (strip dec) \<and> encodable (strip dec') \<and> strip dec' \<noteq> strip dec"
  then show "hash_input [strip raw, strip dec', strip dec2]
      \<noteq> hash_input [strip raw, strip dec, strip dec2]"
    using hash_input_second [of "strip dec" "strip dec'"] by auto
next
  assume "encodable (strip dec2) \<and> encodable (strip dec2') \<and> strip dec2' \<noteq> strip dec2"
  then show "hash_input [strip raw, strip dec, strip dec2']
      \<noteq> hash_input [strip raw, strip dec, strip dec2]"
    using hash_input_third [of "strip dec2" "strip dec2'"] by auto
qed

theorem C8_fingerprint_of_trimmed_blocks_witness:
  "record_hash (lit '' SWLH0012 '' @ NL) (lit ''dec'') [] = record_hash (lit ''SWLH0012'') (lit ''dec'') []
   \<and> hash_input [lit ''SWLH0013'', lit ''dec'', []] \<noteq> hash_input [lit ''SWLH0012'', lit ''dec'', []]
   \<and> hash_input [lit ''SWLH0012'', lit ''Dec'', []] \<noteq> hash_input [lit ''SWLH0012'', lit ''dec'', []]
   \<and> hash_input [lit ''SWLH0012'', lit ''dec'', lit ''x''] \<noteq> hash_input [lit ''SWLH0012'', lit ''dec'', []]"
proof -
  have s: "strip (lit '' SWLH0012 '' @ NL) = lit ''SWLH0012''" "strip (lit ''SWLH0012'') = lit ''SWLH0012''"
    "strip (lit ''SWLH0013'') = lit ''SWLH0013''" "strip (lit ''dec'') = lit ''dec''"
    "strip (lit ''Dec'') = lit ''Dec''" "strip (lit ''x'') = lit ''x''"
    by (simp_all add: lit_def NL_def sval)
  have e: "encodable (lit ''SWLH0012'')" "encodable (lit ''SWLH0013'')" "encodable (lit ''dec'')"
    "encodable (lit ''Dec'')" "encodable (lit ''x'')" "encodable []"
    by (simp_all add: encodable_def lit_def)
  have d: "lit ''SWLH0013'' \<noteq> lit ''SWLH0012''" "lit ''Dec'' \<noteq> lit ''dec''" "lit ''x'' \<noteq> []"
    by (simp_all add: lit_def)
  show ?thesis
    using C8_fingerprint_of_trimmed_blocks [of "lit ''SWLH0012''" "lit ''dec''" "[]"
        "lit '' SWLH0012 '' @ NL" "lit ''dec''" "[]"]
      C8_fingerprint_of_trimmed_blocks [of "lit ''SWLH0012''" "lit ''dec''" "[]"
        "lit ''SWLH0013''" "lit ''Dec''" "lit ''x''"]
    by (simp add: s e d)
qed

text \<open>
  The claim C8 as it is written says that every change of a trimmed block changes the
  fingerprint. \<^verbatim>\<open>errors="ignore"\<close> drops a lone surrogate, so the raw blocks \<^verbatim>\<open>SW\<close> and
  \<^verbatim>\<open>SW\ud800\<close> differ after trimming and have the same fingerprint.
\<close>

theorem C8_surrogate_counterexample:
  "strip (lit ''SW'' @ [55296]) \<noteq> strip (lit ''SW'')
   \<and> record_hash (lit ''SW'' @ [55296]) [] [] = record_hash (lit ''SW'') [] []"
proof -
  have s: "strip (lit ''SW'' @ [55296]) = lit ''SW'' @ [55296]" "strip (lit ''SW'') = lit ''SW''"
    by (simp_all add: lit_def sval)
  have u: "utf8_encode (lit ''SW'' @ [55296]) = utf8_encode (lit ''SW'')"
    by (simp add: utf8_encode_def utf8_bytes_def lit_def)
  have n: "lit ''SW'' @ [55296] \<noteq> lit ''SW''" by simp
  have "record_hash (lit ''SW'' @ [55296]) [] [] = record_hash (lit ''SW'') [] []"
    unfolding record_hash_def stable_hash_def hash_input_def s by (simp add: u)
  with n show ?thesis unfolding s by simp
qed

end
